theory Spec2Isabelle
  imports Main "HOL-Library.Multiset"
begin

section \<open>Values returned by the scripting bridge\<close>

text \<open>
  The source works on JavaScript values (\<^verbatim>\<open>AppleScriptValue\<close> in \<^verbatim>\<open>notes.ts\<close>, \<^verbatim>\<open>unknown\<close> in
  the mappers). Strings are lists of code units below 256. A number is \<^verbatim>\<open>NaN\<close>, an
  infinity, or a finite decimal \<open>m * 10^e\<close>: arithmetic on finite numbers is exact, the
  rounding, overflow and underflow of IEEE-754 doubles are not modelled. A record is a
  list of its own properties in insertion order; a property read of a key that is not
  there gives \<^verbatim>\<open>undefined\<close>.
\<close>

datatype jsnum = Finite int int | NaN | PosInf | NegInf

datatype AppleScriptValue =
    VUndefined
  | VNull
  | VBool bool
  | VNum jsnum
  | VStr string
  | VList "AppleScriptValue list"
  | VRec "(string \<times> AppleScriptValue) list"

text \<open>Errors the source throws: \<^verbatim>\<open>new Error(message)\<close>, and the engine's own
  \<^verbatim>\<open>TypeError\<close> and \<^verbatim>\<open>RangeError\<close>.\<close>

datatype error =
    Error string
  | TypeError
  | RangeError

subsection \<open>Decimal text of numbers\<close>

text \<open>The decimal digits of a natural number (given as an integer \<open>n \<ge> 0\<close>).\<close>

definition digit_char :: "int \<Rightarrow> char" where
  "digit_char d = ''0123456789'' ! nat (d mod 10)"

function int_digits :: "int \<Rightarrow> string" where
  "int_digits n = (if n < 10 then [digit_char n] else int_digits (n div 10) @ [digit_char (n mod 10)])"
  by pat_completeness auto
termination
  by (relation "measure nat") auto

declare int_digits.simps [simp del]

text \<open>A positive integer without its trailing zeros, and their count.\<close>

function strip_zeros :: "int \<Rightarrow> int \<times> int" where
  "strip_zeros n = (if n \<le> 0 \<or> n mod 10 \<noteq> 0 then (n, 0)
                    else (case strip_zeros (n div 10) of (s, z) \<Rightarrow> (s, z + 1)))"
  by pat_completeness auto
termination
  by (relation "measure nat") auto

declare strip_zeros.simps [simp del]

definition exponent_text :: "int \<Rightarrow> string" where
  "exponent_text x = (if x < 0 then CHR ''-'' # int_digits (- x) else CHR ''+'' # int_digits x)"

text \<open>\<^verbatim>\<open>Number::toString\<close> (radix 10) of ECMA-262 on the digits \<open>s\<close> (no trailing zero),
  their count \<open>k\<close> and the position \<open>n\<close> of the decimal point.\<close>

definition format_decimal :: "string \<Rightarrow> int \<Rightarrow> string" where
  "format_decimal s n =
     (let k = int (length s) in
      if k \<le> n \<and> n \<le> 21 then s @ replicate (nat (n - k)) CHR ''0''
      else if 0 < n \<and> n \<le> 21 then take (nat n) s @ ''.'' @ drop (nat n) s
      else if -6 < n \<and> n \<le> 0 then ''0.'' @ replicate (nat (- n)) CHR ''0'' @ s
      else if k = 1 then s @ ''e'' @ exponent_text (n - 1)
      else take 1 s @ ''.'' @ drop 1 s @ ''e'' @ exponent_text (n - 1))"

definition Number_toString :: "jsnum \<Rightarrow> string" where
  "Number_toString x =
     (case x of
        NaN \<Rightarrow> ''NaN''
      | PosInf \<Rightarrow> ''Infinity''
      | NegInf \<Rightarrow> ''-Infinity''
      | Finite m e \<Rightarrow>
          if m = 0 then ''0''
          else (case strip_zeros \<bar>m\<bar> of (s, z) \<Rightarrow>
                  (if m < 0 then ''-'' else '''') @
                  format_decimal (int_digits s) (int (length (int_digits s)) + e + z)))"

subsection \<open>\<^verbatim>\<open>String(value)\<close>\<close>

definition join :: "string \<Rightarrow> string list \<Rightarrow> string" where
  "join sep xs = (case xs of [] \<Rightarrow> [] | y # ys \<Rightarrow> y @ concat (map (\<lambda>t. sep @ t) ys))"

definition has_key :: "string \<Rightarrow> (string \<times> AppleScriptValue) list \<Rightarrow> bool" where
  "has_key k r = (map_of r k \<noteq> None)"

text \<open>Conversion to a string: an array joins the texts of its elements with commas
  (\<^verbatim>\<open>null\<close> and \<^verbatim>\<open>undefined\<close> elements are empty); a plain object gives
  \<^verbatim>\<open>[object Object]\<close>, unless it has an own property \<^verbatim>\<open>toString\<close>: a parsed value is never
  callable, the inherited \<^verbatim>\<open>valueOf\<close> returns the object, and the conversion throws a
  \<^verbatim>\<open>TypeError\<close>.\<close>

fun JS_String :: "AppleScriptValue \<Rightarrow> error + string"
  and element_texts :: "AppleScriptValue list \<Rightarrow> error + string list" where
  "JS_String VUndefined = Inr ''undefined''"
| "JS_String VNull = Inr ''null''"
| "JS_String (VBool b) = Inr (if b then ''true'' else ''false'')"
| "JS_String (VNum x) = Inr (Number_toString x)"
| "JS_String (VStr s) = Inr s"
| "JS_String (VList xs) = (case element_texts xs of Inl err \<Rightarrow> Inl err | Inr ts \<Rightarrow> Inr (join '','' ts))"
| "JS_String (VRec r) = (if has_key ''toString'' r then Inl TypeError else Inr ''[object Object]'')"
| "element_texts [] = Inr []"
| "element_texts (x # xs) =
     (case (if x = VNull \<or> x = VUndefined then Inr [] else JS_String x) of
        Inl err \<Rightarrow> Inl err
      | Inr t \<Rightarrow> (case element_texts xs of Inl err \<Rightarrow> Inl err | Inr ts \<Rightarrow> Inr (t # ts)))"

text \<open>A property read \<^verbatim>\<open>record.key\<close>. The mappers read from arrays too (an array passes
  their \<^verbatim>\<open>typeof item === "object"\<close> filter); none of the keys they read is defined on an
  array, so the read gives \<^verbatim>\<open>undefined\<close>.\<close>

definition getProp :: "AppleScriptValue \<Rightarrow> string \<Rightarrow> AppleScriptValue" where
  "getProp v k = (case v of VRec r \<Rightarrow> (case map_of r k of Some x \<Rightarrow> x | None \<Rightarrow> VUndefined) | _ \<Rightarrow> VUndefined)"

section \<open>Strings and numbers of the engine\<close>

text \<open>White space as \<^verbatim>\<open>/\s/\<close> and \<^verbatim>\<open>trim\<close> see it, among the code units below 256.\<close>

definition isWhitespaceChar :: "char \<Rightarrow> bool" where
  "isWhitespaceChar c = (c \<in> set [CHR 0x09, CHR 0x0A, CHR 0x0B, CHR 0x0C, CHR 0x0D, CHR 0x20, CHR 0xA0])"

definition isDigit :: "char \<Rightarrow> bool" where
  "isDigit c = (c \<in> set ''0123456789'')"

definition trimStart :: "string \<Rightarrow> string" where
  "trimStart s = dropWhile isWhitespaceChar s"

definition trim :: "string \<Rightarrow> string" where
  "trim s = rev (dropWhile isWhitespaceChar (rev (dropWhile isWhitespaceChar s)))"

definition toLowerCase :: "string \<Rightarrow> string" where
  "toLowerCase s =
     map (\<lambda>c. let n = (of_char c :: int) in
               if (65 \<le> n \<and> n \<le> 90) \<or> (192 \<le> n \<and> n \<le> 222 \<and> n \<noteq> 215)
               then char_of (n + 32) else c) s"

definition digit_value :: "char \<Rightarrow> int" where
  "digit_value c =
     (let n = (of_char c :: int) in
      if 48 \<le> n \<and> n \<le> 57 then n - 48
      else if 97 \<le> n \<and> n \<le> 102 then n - 87
      else if 65 \<le> n \<and> n \<le> 70 then n - 55
      else 0)"

definition digits_value :: "int \<Rightarrow> string \<Rightarrow> int" where
  "digits_value base ds = foldl (\<lambda>a c. base * a + digit_value c) 0 ds"

definition radix_literal :: "int \<Rightarrow> string \<Rightarrow> jsnum" where
  "radix_literal base ds =
     (if ds \<noteq> [] \<and> list_all (\<lambda>c. (isDigit c \<or> c \<in> set ''abcdefABCDEF'') \<and> digit_value c < base) ds
      then Finite (digits_value base ds) 0 else NaN)"

text \<open>The exponent part of a decimal literal: empty, or \<^verbatim>\<open>e\<close>, an optional sign and digits.\<close>

definition exponent_part :: "string \<Rightarrow> int option" where
  "exponent_part s =
     (case s of
        [] \<Rightarrow> Some 0
      | c # r \<Rightarrow>
          if c = CHR ''e'' \<or> c = CHR ''E'' then
            (case r of
               [] \<Rightarrow> None
             | d # r' \<Rightarrow>
                 let (neg, ds) = (if d = CHR ''-'' then (True, r') else if d = CHR ''+'' then (False, r') else (False, r))
                 in if ds \<noteq> [] \<and> list_all isDigit ds
                    then Some (if neg then - digits_value 10 ds else digits_value 10 ds)
                    else None)
          else None)"

definition decimal_literal :: "string \<Rightarrow> (int \<times> int) option" where
  "decimal_literal s =
     (let ip = takeWhile isDigit s; r = dropWhile isDigit s;
          (fp, r') = (case r of
                        c # t \<Rightarrow> if c = CHR ''.'' then (takeWhile isDigit t, dropWhile isDigit t) else ([], r)
                      | [] \<Rightarrow> ([], r))
      in if ip = [] \<and> fp = [] then None
         else (case exponent_part r' of
                 None \<Rightarrow> None
               | Some x \<Rightarrow> Some (digits_value 10 (ip @ fp), x - int (length fp))))"

text \<open>\<^verbatim>\<open>Number(text)\<close>: the numeric value of a string (\<^verbatim>\<open>StringToNumber\<close> of ECMA-262).\<close>

definition Number_of_string :: "string \<Rightarrow> jsnum" where
  "Number_of_string s =
     (let t = trim s in
      if t = [] then Finite 0 0
      else if take 2 t = ''0x'' \<or> take 2 t = ''0X'' then radix_literal 16 (drop 2 t)
      else if take 2 t = ''0o'' \<or> take 2 t = ''0O'' then radix_literal 8 (drop 2 t)
      else if take 2 t = ''0b'' \<or> take 2 t = ''0B'' then radix_literal 2 (drop 2 t)
      else
        let (neg, r) = (if take 1 t = ''-'' then (True, drop 1 t)
                        else if take 1 t = ''+'' then (False, drop 1 t) else (False, t))
        in if r = ''Infinity'' then (if neg then NegInf else PosInf)
           else (case decimal_literal r of
                   None \<Rightarrow> NaN
                 | Some (m, e) \<Rightarrow> Finite (if neg then - m else m) e))"

definition isFinite :: "jsnum \<Rightarrow> bool" where
  "isFinite x = (case x of Finite m e \<Rightarrow> True | _ \<Rightarrow> False)"

definition times1000 :: "jsnum \<Rightarrow> jsnum" where
  "times1000 x = (case x of Finite m e \<Rightarrow> Finite m (e + 3) | _ \<Rightarrow> x)"

text \<open>The integer part of a finite decimal, rounded towards zero.\<close>

definition truncate_decimal :: "int \<Rightarrow> int \<Rightarrow> int" where
  "truncate_decimal m e =
     (if 0 \<le> e then m * 10 ^ nat e
      else if 0 \<le> m then m div 10 ^ nat (- e)
      else - ((- m) div 10 ^ nat (- e)))"

subsection \<open>Dates\<close>

text \<open>A \<^verbatim>\<open>Date\<close> object is its time value in milliseconds, or \<open>None\<close> for an invalid date
  (time value \<^verbatim>\<open>NaN\<close>). \<^verbatim>\<open>new Date(x)\<close> clips: outside \<open>\<plusminus>8.64e15\<close> the date is invalid.\<close>

type_synonym Date = "int option"

definition TimeClip :: "int \<Rightarrow> int option" where
  "TimeClip t = (if \<bar>t\<bar> \<le> 8640000000000000 then Some t else None)"

definition new_Date :: "jsnum \<Rightarrow> Date" where
  "new_Date x =
     (case x of
        Finite m e \<Rightarrow> TimeClip (truncate_decimal m e)
      | _ \<Rightarrow> None)"

definition pad :: "nat \<Rightarrow> int \<Rightarrow> string" where
  "pad w n = replicate (w - length (int_digits n)) CHR ''0'' @ int_digits n"

text \<open>Year, month and day of a day number counted from 1970-01-01 (proleptic Gregorian).\<close>

definition civil_from_days :: "int \<Rightarrow> int \<times> int \<times> int" where
  "civil_from_days days =
     (let z = days + 719468;
          era = z div 146097;
          doe = z mod 146097;
          yoe = (doe - doe div 1460 + doe div 36524 - doe div 146096) div 365;
          doy = doe - (365 * yoe + yoe div 4 - yoe div 100);
          mp = (5 * doy + 2) div 153;
          d = doy - (153 * mp + 2) div 5 + 1;
          m = (if mp < 10 then mp + 3 else mp - 9);
          y = yoe + era * 400 + (if m \<le> 2 then 1 else 0)
      in (y, m, d))"

definition year_text :: "int \<Rightarrow> string" where
  "year_text y =
     (if 0 \<le> y \<and> y \<le> 9999 then pad 4 y
      else (if y < 0 then ''-'' else ''+'') @ pad 6 \<bar>y\<bar>)"

text \<open>\<^verbatim>\<open>Date.prototype.toISOString\<close> of a valid time value.\<close>

definition toISOString :: "int \<Rightarrow> string" where
  "toISOString t =
     (let (y, m, d) = civil_from_days (t div 86400000);
          r = t mod 86400000
      in year_text y @ ''-'' @ pad 2 m @ ''-'' @ pad 2 d @ ''T''
         @ pad 2 (r div 3600000) @ '':'' @ pad 2 (r div 60000 mod 60) @ '':''
         @ pad 2 (r div 1000 mod 60) @ ''.'' @ pad 3 (r mod 1000) @ ''Z'')"

definition days_from_civil :: "int \<Rightarrow> int \<Rightarrow> int \<Rightarrow> int" where
  "days_from_civil y m d =
     (let y' = (if m \<le> 2 then y - 1 else y);
          era = y' div 400;
          yoe = y' mod 400;
          doy = (153 * (if 2 < m then m - 3 else m + 9) + 2) div 5 + d - 1;
          doe = yoe * 365 + yoe div 4 - yoe div 100 + doy
      in era * 146097 + doe - 719468)"

definition days_in_month :: "int \<Rightarrow> int \<Rightarrow> int" where
  "days_in_month y m =
     (if m = 2 then (if y mod 4 = 0 \<and> (y mod 100 \<noteq> 0 \<or> y mod 400 = 0) then 29 else 28)
      else if m = 4 \<or> m = 6 \<or> m = 9 \<or> m = 11 then 30 else 31)"

text \<open>The text \<^verbatim>\<open>toISOString\<close> writes, read back: year (four digits, or a sign and six),
  month, day, \<^verbatim>\<open>T\<close>, hours, minutes, seconds, milliseconds, \<^verbatim>\<open>Z\<close>.\<close>

definition parse_iso_utc :: "string \<Rightarrow> int option" where
  "parse_iso_utc s =
     (let (sign, ytxt, rest) =
            (if take 1 s = ''+'' then (1, take 6 (drop 1 s), drop 7 s)
             else if take 1 s = ''-'' then (-1, take 6 (drop 1 s), drop 7 s)
             else (1::int, take 4 s, drop 4 s));
          num = (\<lambda>i n. digits_value 10 (take n (drop i rest)));
          digits_at = (\<lambda>i n. length (take n (drop i rest)) = n \<and> list_all isDigit (take n (drop i rest)));
          y = sign * digits_value 10 ytxt
      in if length rest = 20
            \<and> (length ytxt = 4 \<or> length ytxt = 6) \<and> list_all isDigit ytxt
            \<and> \<not> (sign = -1 \<and> y = 0)
            \<and> rest ! 0 = CHR ''-'' \<and> digits_at 1 2 \<and> rest ! 3 = CHR ''-'' \<and> digits_at 4 2
            \<and> rest ! 6 = CHR ''T'' \<and> digits_at 7 2 \<and> rest ! 9 = CHR '':'' \<and> digits_at 10 2
            \<and> rest ! 12 = CHR '':'' \<and> digits_at 13 2 \<and> rest ! 15 = CHR ''.'' \<and> digits_at 16 3
            \<and> rest ! 19 = CHR ''Z''
            \<and> 1 \<le> num 1 2 \<and> num 1 2 \<le> 12 \<and> 1 \<le> num 4 2 \<and> num 4 2 \<le> days_in_month y (num 1 2)
            \<and> num 7 2 \<le> 23 \<and> num 10 2 \<le> 59 \<and> num 13 2 \<le> 59
         then TimeClip (days_from_civil y (num 1 2) (num 4 2) * 86400000
                        + num 7 2 * 3600000 + num 10 2 * 60000 + num 13 2 * 1000 + num 16 3)
         else None)"

text \<open>\<^verbatim>\<open>Date.parse\<close>: the text of \<^verbatim>\<open>toISOString\<close> is read as such; how any other text is read
  is left to the engine, the parameter \<open>dp\<close> (\<open>None\<close> is \<^verbatim>\<open>NaN\<close>).\<close>

definition Date_parse :: "(string \<Rightarrow> int option) \<Rightarrow> string \<Rightarrow> int option" where
  "Date_parse dp s = (case parse_iso_utc s of Some t \<Rightarrow> Some t | None \<Rightarrow> dp s)"

section \<open>Coercion library\<close>

definition coerceString :: "AppleScriptValue \<Rightarrow> string \<Rightarrow> error + string" where
  "coerceString v fallback =
     (case v of
        VStr s \<Rightarrow> Inr s
      | VNull \<Rightarrow> Inr fallback
      | VUndefined \<Rightarrow> Inr fallback
      | _ \<Rightarrow> JS_String v)"


definition isZero :: "jsnum \<Rightarrow> bool" where
  "isZero x = (case x of Finite m e \<Rightarrow> m = 0 | _ \<Rightarrow> False)"

text \<open>\<^verbatim>\<open>coerceBoolean\<close> of the notes and calendar modules.\<close>

definition coerceBoolean :: "AppleScriptValue \<Rightarrow> bool \<Rightarrow> bool" where
  "coerceBoolean v fallback =
     (case v of
        VBool b \<Rightarrow> b
      | VNum x \<Rightarrow> \<not> isZero x
      | VStr s \<Rightarrow>
          (let normalized = toLowerCase s in
           if normalized \<in> set [''true'', ''yes'', ''1''] then True
           else if normalized \<in> set [''false'', ''no'', ''0''] then False
           else fallback)
      | _ \<Rightarrow> fallback)"

text \<open>\<^verbatim>\<open>coerceBoolean\<close> of the mail and reminders modules (no \<^verbatim>\<open>"1"\<close> and \<^verbatim>\<open>"0"\<close>).\<close>

definition coerceBoolean_mail :: "AppleScriptValue \<Rightarrow> bool \<Rightarrow> bool" where
  "coerceBoolean_mail v fallback =
     (case v of
        VBool b \<Rightarrow> b
      | VStr s \<Rightarrow>
          (let normalized = toLowerCase s in
           if normalized = ''true'' \<or> normalized = ''yes'' then True
           else if normalized = ''false'' \<or> normalized = ''no'' then False
           else fallback)
      | VNum x \<Rightarrow> \<not> isZero x
      | _ \<Rightarrow> fallback)"

text \<open>\<^verbatim>\<open>toNumber\<close> (\<^verbatim>\<open>coerceNumber\<close> in the reminders module): \<open>None\<close> is \<^verbatim>\<open>null\<close>.\<close>

definition toNumber :: "AppleScriptValue \<Rightarrow> jsnum option" where
  "toNumber v =
     (case v of
        VNum x \<Rightarrow> if isFinite x then Some x else None
      | VStr s \<Rightarrow>
          if trim s \<noteq> [] then
            (let parsed = Number_of_string s in if parsed \<noteq> NaN then Some parsed else None)
          else None
      | _ \<Rightarrow> None)"

definition toDateFromUnix :: "AppleScriptValue \<Rightarrow> Date option" where
  "toDateFromUnix v =
     (case toNumber v of
        None \<Rightarrow> None
      | Some unixSeconds \<Rightarrow> Some (new_Date (times1000 unixSeconds)))"

text \<open>\<^verbatim>\<open>toISOString\<close> of an invalid date throws a \<^verbatim>\<open>RangeError\<close>.\<close>

definition toIsoFromUnix :: "AppleScriptValue \<Rightarrow> error + string option" where
  "toIsoFromUnix v =
     (case toNumber v of
        None \<Rightarrow> Inr None
      | Some unixSeconds \<Rightarrow>
          (case new_Date (times1000 unixSeconds) of
             None \<Rightarrow> Inl RangeError
           | Some t \<Rightarrow> Inr (Some (toISOString t))))"

text \<open>Truthiness (\<^verbatim>\<open>!!value\<close>).\<close>

definition truthy :: "AppleScriptValue \<Rightarrow> bool" where
  "truthy v =
     (case v of
        VUndefined \<Rightarrow> False
      | VNull \<Rightarrow> False
      | VBool b \<Rightarrow> b
      | VNum x \<Rightarrow> \<not> isZero x \<and> x \<noteq> NaN
      | VStr s \<Rightarrow> s \<noteq> []
      | _ \<Rightarrow> True)"

text \<open>\<^verbatim>\<open>a ?? b\<close>.\<close>

definition nullish :: "AppleScriptValue \<Rightarrow> AppleScriptValue \<Rightarrow> AppleScriptValue" where
  "nullish a b = (if a = VNull \<or> a = VUndefined then b else a)"

section \<open>Sequencing of computations that may throw\<close>

definition bindE :: "error + 'a \<Rightarrow> ('a \<Rightarrow> error + 'b) \<Rightarrow> error + 'b" where
  "bindE x f = (case x of Inl err \<Rightarrow> Inl err | Inr a \<Rightarrow> f a)"

text \<open>\<^verbatim>\<open>xs.map(f)\<close> for an \<open>f\<close> that may throw: the first exception ends the loop.\<close>

fun mapE :: "('a \<Rightarrow> error + 'b) \<Rightarrow> 'a list \<Rightarrow> error + 'b list" where
  "mapE f [] = Inr []"
| "mapE f (x # xs) =
     (case f x of
        Inl err \<Rightarrow> Inl err
      | Inr y \<Rightarrow> (case mapE f xs of Inl err \<Rightarrow> Inl err | Inr ys \<Rightarrow> Inr (y # ys)))"

section \<open>Sorting with a comparator\<close>

text \<open>
  \<^verbatim>\<open>Array.prototype.sort(compare)\<close>. The comparator's result is a number, \<open>None\<close> for \<^verbatim>\<open>NaN\<close>,
  which the engine reads as \<open>0\<close>. The sort is stable. With a consistent comparator every
  engine returns the list computed here; when the comparator is not consistent (it
  returns \<^verbatim>\<open>NaN\<close> for some pairs) the order is implementation-defined, and the model is
  the insertion sort.
\<close>

fun insert_sorted :: "('a \<Rightarrow> 'a \<Rightarrow> int option) \<Rightarrow> 'a \<Rightarrow> 'a list \<Rightarrow> 'a list" where
  "insert_sorted compare x [] = [x]"
| "insert_sorted compare x (y # ys) =
     (if (case compare x y of Some d \<Rightarrow> 0 < d | None \<Rightarrow> False)
      then y # insert_sorted compare x ys
      else x # y # ys)"

definition Array_sort :: "('a \<Rightarrow> 'a \<Rightarrow> int option) \<Rightarrow> 'a list \<Rightarrow> 'a list" where
  "Array_sort compare xs = foldr (insert_sorted compare) xs []"

section \<open>Domain mappers\<close>

text \<open>The records a mapper maps: the objects of an array (arrays among them).\<close>

definition isObject :: "AppleScriptValue \<Rightarrow> bool" where
  "isObject item = (case item of VList xs \<Rightarrow> True | VRec r \<Rightarrow> True | _ \<Rightarrow> False)"

definition nonEmpty :: "string \<Rightarrow> string option" where
  "nonEmpty s = (if s = [] then None else Some s)"

subsection \<open>Notes\<close>

record Note =
  n_name :: string
  n_content :: string
  n_folderName :: "string option"
  n_id :: "string option"
  n_creationDate :: "Date option"
  n_modificationDate :: "Date option"

definition mapNoteRecord :: "AppleScriptValue \<Rightarrow> error + Note" where
  "mapNoteRecord record =
     bindE (coerceString (getProp record ''name'') ''Untitled Note'') (\<lambda>name.
     bindE (coerceString (getProp record ''content'') []) (\<lambda>content.
     bindE (coerceString (getProp record ''folderName'') []) (\<lambda>folderName.
     bindE (coerceString (getProp record ''id'') []) (\<lambda>ident.
       Inr \<lparr> n_name = name, n_content = content,
             n_folderName = nonEmpty folderName, n_id = nonEmpty ident,
             n_creationDate = toDateFromUnix (getProp record ''creationDate''),
             n_modificationDate = toDateFromUnix (getProp record ''modificationDate'') \<rparr>))))"

text \<open>The time a note sorts by; \<open>None\<close> is \<^verbatim>\<open>NaN\<close>, the time of an invalid date.\<close>

definition noteTime :: "Note \<Rightarrow> int option" where
  "noteTime a =
     (case n_modificationDate a of
        Some d \<Rightarrow> d
      | None \<Rightarrow> (case n_creationDate a of Some d \<Rightarrow> d | None \<Rightarrow> Some 0))"

definition compareNotes :: "Note \<Rightarrow> Note \<Rightarrow> int option" where
  "compareNotes a b =
     (case (noteTime b, noteTime a) of
        (Some bTime, Some aTime) \<Rightarrow> Some (bTime - aTime)
      | _ \<Rightarrow> None)"

definition noteRecords :: "AppleScriptValue \<Rightarrow> AppleScriptValue list" where
  "noteRecords raw =
     (case raw of
        VList items \<Rightarrow> filter isObject items
      | VRec r \<Rightarrow> [raw]
      | _ \<Rightarrow> [])"

definition mapNoteRecords :: "AppleScriptValue \<Rightarrow> error + Note list" where
  "mapNoteRecords raw =
     bindE (mapE mapNoteRecord (noteRecords raw)) (\<lambda>mapped.
       Inr (Array_sort compareNotes mapped))"

subsection \<open>Calendar events\<close>

record CalendarEvent =
  e_id :: string
  e_title :: string
  e_location :: "string option"
  e_notes :: "string option"
  e_startDate :: "string option"
  e_endDate :: "string option"
  e_calendarName :: string
  e_isAllDay :: bool
  e_url :: "string option"

definition MAX_SAFE_INTEGER :: int where
  "MAX_SAFE_INTEGER = 9007199254740991"

text \<open>\<^verbatim>\<open>Date.parse(field)\<close> of a field that is neither \<^verbatim>\<open>null\<close> nor empty; \<open>None\<close> is \<^verbatim>\<open>NaN\<close>.\<close>

definition parsedTime :: "(string \<Rightarrow> int option) \<Rightarrow> string option \<Rightarrow> int option" where
  "parsedTime dp field =
     (case field of Some s \<Rightarrow> if s \<noteq> [] then Date_parse dp s else None | None \<Rightarrow> None)"

definition getEventSortKey :: "(string \<Rightarrow> int option) \<Rightarrow> CalendarEvent \<Rightarrow> int" where
  "getEventSortKey dp event =
     (case parsedTime dp (e_startDate event) of
        Some parsed \<Rightarrow> parsed
      | None \<Rightarrow>
          (case parsedTime dp (e_endDate event) of
             Some parsed \<Rightarrow> parsed
           | None \<Rightarrow> MAX_SAFE_INTEGER))"

definition compareEvents :: "(string \<Rightarrow> int option) \<Rightarrow> CalendarEvent \<Rightarrow> CalendarEvent \<Rightarrow> int option" where
  "compareEvents dp a b = Some (getEventSortKey dp a - getEventSortKey dp b)"

text \<open>The body of the loop over the records: the identifier read from the record, and
  the event built from it.\<close>

definition mapEventRecord :: "AppleScriptValue \<Rightarrow> error + (string \<times> CalendarEvent)" where
  "mapEventRecord record =
     bindE (coerceString (getProp record ''id'') []) (\<lambda>ident.
     bindE (coerceString (getProp record ''title'') ''Untitled Event'') (\<lambda>title.
     bindE (coerceString (getProp record ''location'') []) (\<lambda>location.
     bindE (coerceString (getProp record ''notes'') []) (\<lambda>notes.
     bindE (coerceString (getProp record ''calendarName'') ''Unknown Calendar'') (\<lambda>calendarName.
     bindE (coerceString (getProp record ''url'') []) (\<lambda>url.
     bindE (toIsoFromUnix (getProp record ''startDate'')) (\<lambda>startDate.
     bindE (toIsoFromUnix (getProp record ''endDate'')) (\<lambda>endDate.
       Inr (ident,
            \<lparr> e_id = (if ident \<noteq> [] then ident
                      else title @ ''-'' @ (case startDate of Some s \<Rightarrow> s | None \<Rightarrow> ''unknown'')
                           @ ''-'' @ calendarName),
              e_title = title, e_location = nonEmpty location, e_notes = nonEmpty notes,
              e_startDate = startDate, e_endDate = endDate, e_calendarName = calendarName,
              e_isAllDay = coerceBoolean (getProp record ''isAllDay'') False,
              e_url = nonEmpty url \<rparr>)))))))))"

text \<open>\<^verbatim>\<open>Map.prototype.set\<close>: a key that is there keeps its place and takes the new value, a
  new key goes last.\<close>

fun map_set :: "'k \<Rightarrow> 'v \<Rightarrow> ('k \<times> 'v) list \<Rightarrow> ('k \<times> 'v) list" where
  "map_set k v [] = [(k, v)]"
| "map_set k v (p # ps) = (if fst p = k then (k, v) # ps else p # map_set k v ps)"

text \<open>The loop of \<^verbatim>\<open>mapEventRecords\<close>, on the map \<^verbatim>\<open>deduped\<close> and the array \<^verbatim>\<open>fallback\<close>.\<close>

fun collectEvents ::
  "AppleScriptValue list \<Rightarrow> (string \<times> CalendarEvent) list \<Rightarrow> CalendarEvent list
     \<Rightarrow> error + ((string \<times> CalendarEvent) list \<times> CalendarEvent list)" where
  "collectEvents [] deduped fallback = Inr (deduped, fallback)"
| "collectEvents (record # records) deduped fallback =
     (case mapEventRecord record of
        Inl err \<Rightarrow> Inl err
      | Inr (ident, event) \<Rightarrow>
          if ident \<noteq> [] then collectEvents records (map_set ident event deduped) fallback
          else collectEvents records deduped (fallback @ [event]))"

definition eventRecords :: "AppleScriptValue \<Rightarrow> AppleScriptValue list" where
  "eventRecords raw = (case raw of VList items \<Rightarrow> filter isObject items | _ \<Rightarrow> [])"

definition mapEventRecords :: "(string \<Rightarrow> int option) \<Rightarrow> AppleScriptValue \<Rightarrow> error + CalendarEvent list" where
  "mapEventRecords dp raw =
     bindE (collectEvents (eventRecords raw) [] []) (\<lambda>(deduped, fallback).
       Inr (Array_sort (compareEvents dp) (map snd deduped @ fallback)))"

subsection \<open>Mail\<close>

record EmailMessage =
  m_subject :: string
  m_sender :: string
  m_dateSent :: string
  m_content :: string
  m_isRead :: bool
  m_mailbox :: string

text \<open>\<^verbatim>\<open>toIsoDate\<close>; \<open>now\<close> is the time value of \<^verbatim>\<open>new Date()\<close>.\<close>

definition toIsoDate :: "(string \<Rightarrow> int option) \<Rightarrow> int \<Rightarrow> AppleScriptValue \<Rightarrow> error + string" where
  "toIsoDate dp now v =
     bindE (coerceString v []) (\<lambda>asString.
       if asString = [] then Inr (toISOString now)
       else (case Date_parse dp asString of
               None \<Rightarrow> Inr asString
             | Some parsed \<Rightarrow> Inr (toISOString parsed)))"

definition mapEmailRecord ::
  "(string \<Rightarrow> int option) \<Rightarrow> int \<Rightarrow> string option \<Rightarrow> AppleScriptValue \<Rightarrow> error + EmailMessage" where
  "mapEmailRecord dp now fallbackMailbox record =
     bindE (coerceString (getProp record ''subject'') ''No subject'') (\<lambda>subject.
     bindE (coerceString (getProp record ''sender'') ''Unknown sender'') (\<lambda>sender.
     bindE (coerceString (getProp record ''content'') ''[Content not available]'') (\<lambda>content.
     bindE (toIsoDate dp now
              (nullish (getProp record ''dateSent'') (nullish (getProp record ''date'')
                 (nullish (getProp record ''sentDate'') (getProp record ''receivedDate''))))) (\<lambda>dateSent.
     bindE (coerceString
              (nullish (getProp record ''mailbox'')
                 (case fallbackMailbox of Some mb \<Rightarrow> VStr mb | None \<Rightarrow> VStr ''Unknown mailbox'')) []) (\<lambda>mailbox.
       Inr \<lparr> m_subject = subject, m_sender = sender, m_dateSent = dateSent, m_content = content,
             m_isRead = coerceBoolean_mail (getProp record ''isRead'') (truthy (getProp record ''read'')),
             m_mailbox = mailbox \<rparr>)))))"

definition mapEmailRecords ::
  "(string \<Rightarrow> int option) \<Rightarrow> int \<Rightarrow> AppleScriptValue \<Rightarrow> string option \<Rightarrow> error + EmailMessage list" where
  "mapEmailRecords dp now raw fallbackMailbox =
     (case raw of
        VList items \<Rightarrow>
          bindE (mapE (mapEmailRecord dp now fallbackMailbox) (filter isObject items)) (\<lambda>mapped.
            Inr (filter (\<lambda>email. m_subject email \<noteq> [] \<or> m_sender email \<noteq> []) mapped))
      | _ \<Rightarrow> Inr [])"

subsection \<open>Reminders\<close>





section \<open>The parser of the bridge's text\<close>

text \<open>
  \<^verbatim>\<open>AppleScriptSourceParser\<close>: the input and a cursor \<^verbatim>\<open>index\<close> into it. Every method is a
  function of the input and the cursor, and returns its value with the new cursor, or
  the error it throws.
\<close>

definition peek :: "string \<Rightarrow> nat \<Rightarrow> char option" where
  "peek input index = (if index < length input then Some (input ! index) else None)"

definition consume :: "string \<Rightarrow> nat \<Rightarrow> char option \<Rightarrow> error + (char \<times> nat)" where
  "consume input index expected =
     (if length input \<le> index then Inl (Error ''Unexpected end of AppleScript result'')
      else (let char = input ! index in
            case expected of
              Some x \<Rightarrow>
                if char \<noteq> x
                then Inl (Error (''Expected '' @ [CHR 0x22, x, CHR 0x22] @ '' but found ''
                                 @ [CHR 0x22, char, CHR 0x22] @ '' in AppleScript result''))
                else Inr (char, index + 1)
            | None \<Rightarrow> Inr (char, index + 1)))"

definition startsWith :: "string \<Rightarrow> nat \<Rightarrow> string \<Rightarrow> bool" where
  "startsWith input index v = (take (length v) (drop index input) = v)"

definition slice :: "string \<Rightarrow> nat \<Rightarrow> nat \<Rightarrow> string" where
  "slice input start stop = take (stop - start) (drop start input)"

text \<open>The loops that move the cursor while the character under it is of some kind.\<close>

function advanceWhile :: "(char \<Rightarrow> bool) \<Rightarrow> string \<Rightarrow> nat \<Rightarrow> nat" where
  "advanceWhile p input index =
     (if index < length input \<and> p (input ! index) then advanceWhile p input (index + 1) else index)"
  by pat_completeness auto
termination
  by (relation "measure (\<lambda>(p, input, index). length input - index)") auto

declare advanceWhile.simps [simp del]

definition skipWhitespace :: "string \<Rightarrow> nat \<Rightarrow> nat" where
  "skipWhitespace input index = advanceWhile isWhitespaceChar input index"

text \<open>The character an escape stands for (the \<^verbatim>\<open>switch\<close> of \<^verbatim>\<open>parseString\<close>).\<close>

definition unescape :: "char \<Rightarrow> char" where
  "unescape next =
     (if next = CHR 0x22 then CHR 0x22
      else if next = CHR 0x5C then CHR 0x5C
      else if next = CHR ''n'' then CHR 0x0A
      else if next = CHR ''r'' then CHR 0x0D
      else if next = CHR ''t'' then CHR 0x09
      else next)"

text \<open>The loop of \<^verbatim>\<open>parseString\<close>, after the opening quote.\<close>

function parseString_loop :: "string \<Rightarrow> nat \<Rightarrow> string \<Rightarrow> error + (string \<times> nat)" where
  "parseString_loop input index result =
     (if index < length input then
        (let char = input ! index in
         if char = CHR 0x22 then Inr (result, index + 1)
         else if char = CHR 0x5C then
           (if index + 1 < length input
            then parseString_loop input (index + 2) (result @ [unescape (input ! (index + 1))])
            else Inl (Error ''Unexpected end of AppleScript result''))
         else parseString_loop input (index + 1) (result @ [char]))
      else Inl (Error ''Unterminated string literal in AppleScript result''))"
  by pat_completeness auto
termination
  by (relation "measure (\<lambda>(input, index, result). length input - index)") auto

declare parseString_loop.simps [simp del]

definition parseString :: "string \<Rightarrow> nat \<Rightarrow> error + (string \<times> nat)" where
  "parseString input index =
     (case consume input index (Some (CHR 0x22)) of
        Inl err \<Rightarrow> Inl err
      | Inr (c, i) \<Rightarrow> parseString_loop input i [])"

text \<open>\<^verbatim>\<open>skipStringFrom\<close>: the loop, and the method.\<close>

function skipString_loop :: "string \<Rightarrow> nat \<Rightarrow> error + nat" where
  "skipString_loop input index =
     (if index < length input then
        (let char = input ! index in
         if char = CHR 0x5C then skipString_loop input (index + 2)
         else if char = CHR 0x22 then Inr (index + 1)
         else skipString_loop input (index + 1))
      else Inl (Error ''Unterminated string literal detected while scanning''))"
  by pat_completeness auto
termination
  by (relation "measure (\<lambda>(input, index). length input - index)") auto

declare skipString_loop.simps [simp del]

definition skipStringFrom :: "string \<Rightarrow> nat \<Rightarrow> error + nat" where
  "skipStringFrom input position = skipString_loop input (position + 1)"

lemma skipString_loop_advances:
  "skipString_loop input index = Inr p \<Longrightarrow> index < p \<and> p \<le> length input"
proof (induction input index rule: skipString_loop.induct)
  case (1 input index)
  from "1.prems" have lt: "index < length input"
    by (subst (asm) skipString_loop.simps) (simp split: if_splits)
  show ?case
  proof (cases "input ! index = CHR 0x5C")
    case True
    with "1.prems" lt have "skipString_loop input (index + 2) = Inr p"
      by (subst (asm) skipString_loop.simps) simp
    with "1.IH"(1) [OF lt refl True] show ?thesis by simp
  next
    case False
    show ?thesis
    proof (cases "input ! index = CHR 0x22")
      case True
      with "1.prems" lt False show ?thesis
        by (subst (asm) skipString_loop.simps) auto
    next
      case q: False
      with "1.prems" lt False have "skipString_loop input (index + 1) = Inr p"
        by (subst (asm) skipString_loop.simps) simp
      with "1.IH"(2) [OF lt refl False q] show ?thesis by simp
    qed
  qed
qed

text \<open>\<^verbatim>\<open>isRecordCollection\<close>: the loop on \<^verbatim>\<open>depth\<close> and \<^verbatim>\<open>position\<close>, and the method, which
  starts it at depth 0 on the cursor. It does not move the cursor.\<close>

function isRecordCollection_loop :: "string \<Rightarrow> nat \<Rightarrow> nat \<Rightarrow> error + bool" where
  "isRecordCollection_loop input depth position =
     (if position < length input then
        (let char = input ! position in
         if isWhitespaceChar char then isRecordCollection_loop input depth (position + 1)
         else if char = CHR 0x22 then
           (case skipStringFrom input position of
              Inl err \<Rightarrow> Inl err
            | Inr p \<Rightarrow> isRecordCollection_loop input depth p)
         else if char = CHR ''{'' then isRecordCollection_loop input (depth + 1) (position + 1)
         else if char = CHR ''}'' then
           (if depth = 0 then Inr False
            else isRecordCollection_loop input (depth - 1) (position + 1))
         else if depth = 0 \<and> char = CHR '':'' then Inr True
         else if depth = 0 \<and> char = CHR '','' then Inr False
         else isRecordCollection_loop input depth (position + 1))
      else Inr False)"
  by pat_completeness auto
termination
proof (relation "measure (\<lambda>(input, depth, position). length input - position)", goal_cases)
  case (3 input depth position char p)
  then show ?case
    using skipString_loop_advances [of input "position + 1" p]
    by (simp add: skipStringFrom_def) arith
qed auto

declare isRecordCollection_loop.simps [simp del]

definition isRecordCollection :: "string \<Rightarrow> nat \<Rightarrow> error + bool" where
  "isRecordCollection input index = isRecordCollection_loop input 0 index"

definition parseNumber :: "string \<Rightarrow> nat \<Rightarrow> AppleScriptValue \<times> nat" where
  "parseNumber input start =
     (let i1 = (if peek input start = Some (CHR ''-'') then start + 1 else start);
          i2 = advanceWhile isDigit input i1;
          i3 = (if peek input i2 = Some (CHR ''.'') then advanceWhile isDigit input (i2 + 1) else i2)
      in (VNum (Number_of_string (slice input start i3)), i3))"

definition parseBareword :: "string \<Rightarrow> nat \<Rightarrow> error + (AppleScriptValue \<times> nat)" where
  "parseBareword input start =
     (let stop = advanceWhile (\<lambda>c. \<not> (c = CHR '','' \<or> c = CHR ''}'') \<and> \<not> isWhitespaceChar c) input start
      in if start = stop then Inl (Error ''Unable to parse AppleScript value'')
         else Inr (VStr (slice input start stop), stop))"

text \<open>\<^verbatim>\<open>/[A-Za-z0-9_]/\<close>.\<close>

definition isKeyChar :: "char \<Rightarrow> bool" where
  "isKeyChar c =
     (let n = (of_char c :: int) in
      (65 \<le> n \<and> n \<le> 90) \<or> (97 \<le> n \<and> n \<le> 122) \<or> (48 \<le> n \<and> n \<le> 57) \<or> n = 95)"

definition parseKey :: "string \<Rightarrow> nat \<Rightarrow> error + (string \<times> nat)" where
  "parseKey input index =
     (let i = skipWhitespace input index in
      case peek input i of
        None \<Rightarrow> Inl (Error ''Unexpected end while parsing key'')
      | Some char \<Rightarrow>
          if char = CHR 0x22 then parseString input i
          else (let stop = advanceWhile isKeyChar input i in
                if i = stop then Inl (Error ''Invalid record key in AppleScript result'')
                else Inr (slice input i stop, stop)))"

text \<open>\<^verbatim>\<open>result[key] = value\<close> on a plain object: a key that is there keeps its place. The key
  \<^verbatim>\<open>__proto__\<close> creates no property (the assignment goes to the prototype setter; the
  change of prototype it may make is not modelled).\<close>

definition record_set ::
  "string \<Rightarrow> AppleScriptValue \<Rightarrow> (string \<times> AppleScriptValue) list \<Rightarrow> (string \<times> AppleScriptValue) list" where
  "record_set key v result = (if key = ''__proto__'' then result else map_set key v result)"

lemma advanceWhile_bounds:
  "index \<le> advanceWhile p input index \<and> advanceWhile p input index \<le> max index (length input)"
  by (induction p input index rule: advanceWhile.induct)
     (subst advanceWhile.simps, subst (2) advanceWhile.simps, auto)

lemma skipWhitespace_bounds:
  "index \<le> skipWhitespace input index \<and> skipWhitespace input index \<le> max index (length input)"
  by (simp add: skipWhitespace_def advanceWhile_bounds)

lemma consume_Inr: "consume input index expected = Inr (c, j) \<Longrightarrow> j = index + 1 \<and> index < length input"
  by (auto simp: consume_def Let_def split: if_splits option.splits)

lemma parseString_loop_advances:
  "parseString_loop input index result = Inr (s, j) \<Longrightarrow> index < j \<and> j \<le> length input"
proof (induction input index result rule: parseString_loop.induct)
  case (1 input index result)
  from "1.prems" have lt: "index < length input"
    by (subst (asm) parseString_loop.simps) (simp split: if_splits)
  show ?case
  proof (cases "input ! index = CHR 0x22")
    case True
    with "1.prems" lt show ?thesis
      by (subst (asm) parseString_loop.simps) auto
  next
    case False
    show ?thesis
    proof (cases "input ! index = CHR 0x5C")
      case True
      with "1.prems" lt False have lt2: "index + 1 < length input"
        and "parseString_loop input (index + 2) (result @ [unescape (input ! (index + 1))]) = Inr (s, j)"
        by (subst (asm) parseString_loop.simps, simp split: if_splits)+
      with "1.IH"(1) [OF lt refl False True lt2] show ?thesis by simp
    next
      case b: False
      with "1.prems" lt False
      have "parseString_loop input (index + 1) (result @ [input ! index]) = Inr (s, j)"
        by (subst (asm) parseString_loop.simps) simp
      with "1.IH"(2) [OF lt refl False b] show ?thesis by simp
    qed
  qed
qed

lemma parseString_advances:
  "parseString input index = Inr (s, j) \<Longrightarrow> index < j \<and> j \<le> length input"
  by (auto simp: parseString_def split: sum.splits dest!: consume_Inr parseString_loop_advances)

lemma parseKey_advances:
  "parseKey input index = Inr (key, j) \<Longrightarrow> index < j \<and> j \<le> length input"
proof -
  assume a: "parseKey input index = Inr (key, j)"
  let ?i = "skipWhitespace input index"
  from a obtain char where p: "peek input ?i = Some char"
    by (auto simp: parseKey_def Let_def split: option.splits)
  then have lt: "?i < length input" by (simp add: peek_def split: if_splits)
  have ge: "index \<le> ?i" by (simp add: skipWhitespace_bounds)
  show ?thesis
  proof (cases "char = CHR 0x22")
    case True
    with a p have "parseString input ?i = Inr (key, j)" by (simp add: parseKey_def Let_def)
    from parseString_advances [OF this] ge show ?thesis by simp
  next
    case False
    with a p have j: "j = advanceWhile isKeyChar input ?i" and ne: "?i \<noteq> j"
      by (auto simp: parseKey_def Let_def split: if_splits)
    from advanceWhile_bounds [of ?i isKeyChar input] j ne lt ge show ?thesis by auto
  qed
qed

function parseValue :: "string \<Rightarrow> nat \<Rightarrow> error + (AppleScriptValue \<times> nat)"
  and parseCollection :: "string \<Rightarrow> nat \<Rightarrow> error + (AppleScriptValue \<times> nat)"
  and parseRecordEntries ::
    "string \<Rightarrow> nat \<Rightarrow> (string \<times> AppleScriptValue) list
       \<Rightarrow> error + ((string \<times> AppleScriptValue) list \<times> nat)"
  and parseListItems ::
    "string \<Rightarrow> nat \<Rightarrow> AppleScriptValue list \<Rightarrow> error + (AppleScriptValue list \<times> nat)"
where
  "parseValue input index =
     (let i = skipWhitespace input index in
      case peek input i of
        None \<Rightarrow> Inl (Error ''Unexpected end of AppleScript result'')
      | Some char \<Rightarrow>
          if char = CHR ''{'' then parseCollection input i
          else if char = CHR 0x22 then
            (case parseString input i of Inl err \<Rightarrow> Inl err | Inr (s, j) \<Rightarrow> Inr (VStr s, j))
          else if startsWith input i ''missing value'' then Inr (VNull, i + length ''missing value'')
          else if startsWith input i ''true'' then Inr (VBool True, i + length ''true'')
          else if startsWith input i ''false'' then Inr (VBool False, i + length ''false'')
          else if char = CHR ''-'' \<or> isDigit char then Inr (parseNumber input i)
          else parseBareword input i)"
| "parseCollection input index =
     (case consume input index (Some (CHR ''{'')) of
        Inl err \<Rightarrow> Inl err
      | Inr (c, i) \<Rightarrow>
          (let j = skipWhitespace input i in
           if peek input j = Some (CHR ''}'') then
             (case consume input j (Some (CHR ''}'')) of
                Inl err \<Rightarrow> Inl err
              | Inr (c, k) \<Rightarrow> Inr (VList [], k))
           else
             (case isRecordCollection input j of
                Inl err \<Rightarrow> Inl err
              | Inr isRecord \<Rightarrow>
                  if isRecord then
                    (case parseRecordEntries input j [] of
                       Inl err \<Rightarrow> Inl err
                     | Inr (result, k) \<Rightarrow>
                         (case consume input (skipWhitespace input k) (Some (CHR ''}'')) of
                            Inl err \<Rightarrow> Inl err
                          | Inr (c, l) \<Rightarrow> Inr (VRec result, l)))
                  else
                    (case parseListItems input j [] of
                       Inl err \<Rightarrow> Inl err
                     | Inr (list, k) \<Rightarrow>
                         (case consume input (skipWhitespace input k) (Some (CHR ''}'')) of
                            Inl err \<Rightarrow> Inl err
                          | Inr (c, l) \<Rightarrow> Inr (VList list, l))))))"
| "parseRecordEntries input index result =
     (case parseKey input index of
        Inl err \<Rightarrow> Inl err
      | Inr (key, i) \<Rightarrow>
          (case consume input (skipWhitespace input i) (Some (CHR '':'')) of
             Inl err \<Rightarrow> Inl err
           | Inr (c, j) \<Rightarrow>
               (case parseValue input j of
                  Inl err \<Rightarrow> Inl err
                | Inr (v, k) \<Rightarrow>
                    (let l = skipWhitespace input k in
                     if peek input l = Some (CHR '','')
                     then parseRecordEntries input (l + 1) (record_set key v result)
                     else Inr (record_set key v result, l)))))"
| "parseListItems input index list =
     (case parseValue input index of
        Inl err \<Rightarrow> Inl err
      | Inr (v, k) \<Rightarrow>
          (let l = skipWhitespace input k in
           if peek input l = Some (CHR '','')
           then parseListItems input (l + 1) (list @ [v])
           else Inr (list @ [v], l)))"
  by pat_completeness auto

lemma peek_Some: "peek input i = Some c \<longleftrightarrow> i < length input \<and> input ! i = c"
  by (auto simp: peek_def)

lemma advanceWhile_step: "i < length input \<Longrightarrow> p (input ! i) \<Longrightarrow> i < advanceWhile p input i"
  using advanceWhile_bounds [of "i + 1" p input] by (subst advanceWhile.simps) simp

lemma advanceWhile_le: "i \<le> length input \<Longrightarrow> advanceWhile p input i \<le> length input"
  using advanceWhile_bounds [of i p input] by (simp add: max_def split: if_splits)

lemma skipWhitespace_le: "i \<le> length input \<Longrightarrow> skipWhitespace input i \<le> length input"
  by (simp add: skipWhitespace_def advanceWhile_le)

lemma skipWhitespace_ge: "i \<le> skipWhitespace input i"
  by (simp add: skipWhitespace_bounds)

lemma startsWith_bound:
  assumes "startsWith input i v" and "i \<le> length input"
  shows "i + length v \<le> length input"
proof -
  from assms(1) have "length (take (length v) (drop i input)) = length v"
    by (simp add: startsWith_def)
  with assms(2) show ?thesis by (simp add: min_def split: if_splits)
qed

lemma parseNumber_advances:
  assumes "peek input i = Some c" and "c = CHR ''-'' \<or> isDigit c" and "parseNumber input i = (v, j)"
  shows "i < j \<and> j \<le> length input"
proof -
  from assms(1) have lt: "i < length input" and c: "input ! i = c" by (simp_all add: peek_Some)
  define i1 where "i1 = (if peek input i = Some (CHR ''-'') then i + 1 else i)"
  define i2 where "i2 = advanceWhile isDigit input i1"
  define i3 where "i3 = (if peek input i2 = Some (CHR ''.'') then advanceWhile isDigit input (i2 + 1) else i2)"
  have "snd (parseNumber input i) = i3"
    unfolding parseNumber_def Let_def i1_def i2_def i3_def by simp
  with assms(3) have j: "j = i3" by simp
  have le1: "i \<le> i1" "i1 \<le> length input" using lt by (auto simp: i1_def)
  have le2: "i1 \<le> i2" "i2 \<le> length input"
    using advanceWhile_bounds [of i1 isDigit input] advanceWhile_le [OF le1(2)] by (simp_all add: i2_def)
  have le3: "i2 \<le> i3" "i3 \<le> length input"
    using advanceWhile_bounds [of "i2 + 1" isDigit input] advanceWhile_le [of "i2 + 1" input isDigit] le2
    by (auto simp: i3_def peek_Some)
  have "i < i2"
  proof (cases "c = CHR ''-''")
    case True
    with assms(1) have "i1 = i + 1" by (simp add: i1_def)
    with le2 show ?thesis by simp
  next
    case False
    with assms(1,2) have "i1 = i" "isDigit (input ! i)" using c by (simp_all add: i1_def)
    with advanceWhile_step [OF lt, of isDigit] show ?thesis by (simp add: i2_def)
  qed
  with le3 j show ?thesis by simp
qed

lemma parseBareword_advances:
  assumes "parseBareword input i = Inr (v, j)" and "i \<le> length input"
  shows "i < j \<and> j \<le> length input"
proof -
  let ?p = "\<lambda>c. \<not> (c = CHR '','' \<or> c = CHR ''}'') \<and> \<not> isWhitespaceChar c"
  from assms(1) have j: "j = advanceWhile ?p input i" and ne: "i \<noteq> j"
    by (auto simp: parseBareword_def Let_def split: if_splits)
  from advanceWhile_bounds [of i ?p input] advanceWhile_le [OF assms(2), of ?p] j ne
  show ?thesis by simp
qed

lemma parse_advances_partial:
  "parseValue_parseCollection_parseRecordEntries_parseListItems_dom (Inl (Inl (input, index)))
     \<Longrightarrow> \<forall>v j. parseValue input index = Inr (v, j) \<longrightarrow> index < j \<and> j \<le> length input"
  "parseValue_parseCollection_parseRecordEntries_parseListItems_dom (Inl (Inr (input, index)))
     \<Longrightarrow> \<forall>v j. parseCollection input index = Inr (v, j) \<longrightarrow> index < j \<and> j \<le> length input"
  "parseValue_parseCollection_parseRecordEntries_parseListItems_dom (Inr (Inl (input, index, result)))
     \<Longrightarrow> \<forall>r j. parseRecordEntries input index result = Inr (r, j) \<longrightarrow> index < j \<and> j \<le> length input"
  "parseValue_parseCollection_parseRecordEntries_parseListItems_dom (Inr (Inr (input, index, list)))
     \<Longrightarrow> \<forall>r j. parseListItems input index list = Inr (r, j) \<longrightarrow> index < j \<and> j \<le> length input"
proof (induction rule: parseValue_parseCollection_parseRecordEntries_parseListItems.pinduct)
  case (1 input index)
  let ?i = "skipWhitespace input index"
  show ?case
  proof (intro allI impI)
    fix v j assume r: "parseValue input index = Inr (v, j)"
    from r obtain char where p: "peek input ?i = Some char"
      by (auto simp: parseValue.psimps [OF "1.hyps"] Let_def split: option.splits)
    then have lt: "?i < length input" by (simp add: peek_Some)
    have ge: "index \<le> ?i" by (rule skipWhitespace_ge)
    have "?i < j \<and> j \<le> length input"
    proof (cases "char = CHR ''{''")
      case True
      with r p have "parseCollection input ?i = Inr (v, j)"
        by (simp add: parseValue.psimps [OF "1.hyps"] Let_def)
      with "1.IH" [OF refl p True] show ?thesis by blast
    next
      case False
      with r p have
        "(char = CHR 0x22 \<and> (\<exists>s. parseString input ?i = Inr (s, j)))
         \<or> (startsWith input ?i ''missing value'' \<and> j = ?i + length ''missing value'')
         \<or> (startsWith input ?i ''true'' \<and> j = ?i + length ''true'')
         \<or> (startsWith input ?i ''false'' \<and> j = ?i + length ''false'')
         \<or> ((char = CHR ''-'' \<or> isDigit char) \<and> parseNumber input ?i = (v, j))
         \<or> parseBareword input ?i = Inr (v, j)"
        by (auto simp: parseValue.psimps [OF "1.hyps"] Let_def split: if_splits sum.splits)
      then show ?thesis
        using parseString_advances [of input ?i _ j]
          startsWith_bound [of input ?i "''missing value''"]
          startsWith_bound [of input ?i "''true''"]
          startsWith_bound [of input ?i "''false''"]
          parseNumber_advances [OF p, of v j] parseBareword_advances [of input ?i v j] lt
        by (elim disjE exE conjE) auto
    qed
    with ge show "index < j \<and> j \<le> length input" by simp
  qed
next
  case (2 input index)
  show ?case
  proof (intro allI impI)
    fix v j assume r: "parseCollection input index = Inr (v, j)"
    from r obtain c i where c: "consume input index (Some (CHR ''{'')) = Inr (c, i)"
      by (auto simp: parseCollection.psimps [OF "2.hyps"] split: sum.splits)
    from consume_Inr [OF c] have i: "i = index + 1" "index < length input" by simp_all
    let ?j = "skipWhitespace input i"
    have jb: "i \<le> ?j" "?j \<le> length input"
      using skipWhitespace_ge [of i input] skipWhitespace_le [of i input] i by simp_all
    show "index < j \<and> j \<le> length input"
    proof (cases "peek input ?j = Some (CHR ''}'')")
      case True
      with r c obtain c' where "consume input ?j (Some (CHR ''}'')) = Inr (c', j)"
        by (auto simp: parseCollection.psimps [OF "2.hyps"] Let_def split: sum.splits)
      from consume_Inr [OF this] jb i show ?thesis by simp
    next
      case False
      with r c obtain isRecord where k: "isRecordCollection input ?j = Inr isRecord"
        by (auto simp: parseCollection.psimps [OF "2.hyps"] Let_def split: sum.splits)
      show ?thesis
      proof (cases isRecord)
        case True
        with r c False k obtain result k' c' where
          e: "parseRecordEntries input ?j [] = Inr (result, k')"
          and f: "consume input (skipWhitespace input k') (Some (CHR ''}'')) = Inr (c', j)"
          by (auto simp: parseCollection.psimps [OF "2.hyps"] Let_def split: sum.splits)
        from "2.IH"(1) [OF c refl refl False k True] e have "?j < k'" "k' \<le> length input" by auto
        with consume_Inr [OF f] skipWhitespace_ge [of k' input] jb i show ?thesis by simp
      next
        case nr: False
        with r c False k obtain list k' c' where
          e: "parseListItems input ?j [] = Inr (list, k')"
          and f: "consume input (skipWhitespace input k') (Some (CHR ''}'')) = Inr (c', j)"
          by (auto simp: parseCollection.psimps [OF "2.hyps"] Let_def split: sum.splits)
        from "2.IH"(2) [OF c refl refl False k nr] e have "?j < k'" "k' \<le> length input" by auto
        with consume_Inr [OF f] skipWhitespace_ge [of k' input] jb i show ?thesis by simp
      qed
    qed
  qed
next
  case (3 input index result)
  show ?case
  proof (intro allI impI)
    fix r j assume res: "parseRecordEntries input index result = Inr (r, j)"
    from res obtain key i where k: "parseKey input index = Inr (key, i)"
      by (auto simp: parseRecordEntries.psimps [OF "3.hyps"] split: sum.splits)
    from res k obtain c i' where c: "consume input (skipWhitespace input i) (Some (CHR '':'')) = Inr (c, i')"
      by (auto simp: parseRecordEntries.psimps [OF "3.hyps"] split: sum.splits)
    from res k c obtain v k' where v: "parseValue input i' = Inr (v, k')"
      by (auto simp: parseRecordEntries.psimps [OF "3.hyps"] split: sum.splits)
    from parseKey_advances [OF k] consume_Inr [OF c] skipWhitespace_ge [of i input]
    have lt: "index < i'" by simp
    from "3.IH"(1) [OF k refl c refl] v have vb: "i' < k'" "k' \<le> length input" by auto
    let ?l = "skipWhitespace input k'"
    have lb: "k' \<le> ?l" "?l \<le> length input"
      using skipWhitespace_ge [of k' input] skipWhitespace_le [OF vb(2)] by simp_all
    show "index < j \<and> j \<le> length input"
    proof (cases "peek input ?l = Some (CHR '','')")
      case True
      with res k c v have "parseRecordEntries input (?l + 1) (record_set key v result) = Inr (r, j)"
        by (simp add: parseRecordEntries.psimps [OF "3.hyps"] Let_def)
      with "3.IH"(2) [OF k refl c refl v refl refl True] have "?l + 1 < j" "j \<le> length input" by auto
      with lt vb lb show ?thesis by simp
    next
      case False
      with res k c v have "j = ?l"
        by (simp add: parseRecordEntries.psimps [OF "3.hyps"] Let_def)
      with lt vb lb show ?thesis by simp
    qed
  qed
next
  case (4 input index list)
  show ?case
  proof (intro allI impI)
    fix r j assume res: "parseListItems input index list = Inr (r, j)"
    from res obtain v k' where v: "parseValue input index = Inr (v, k')"
      by (auto simp: parseListItems.psimps [OF "4.hyps"] split: sum.splits)
    from "4.IH"(1) v have vb: "index < k'" "k' \<le> length input" by auto
    let ?l = "skipWhitespace input k'"
    have lb: "k' \<le> ?l" "?l \<le> length input"
      using skipWhitespace_ge [of k' input] skipWhitespace_le [OF vb(2)] by simp_all
    show "index < j \<and> j \<le> length input"
    proof (cases "peek input ?l = Some (CHR '','')")
      case True
      with res v have "parseListItems input (?l + 1) (list @ [v]) = Inr (r, j)"
        by (simp add: parseListItems.psimps [OF "4.hyps"] Let_def)
      with "4.IH"(2) [OF v refl refl True] have "?l + 1 < j" "j \<le> length input" by auto
      with vb lb show ?thesis by simp
    next
      case False
      with res v have "j = ?l"
        by (simp add: parseListItems.psimps [OF "4.hyps"] Let_def)
      with vb lb show ?thesis by simp
    qed
  qed
qed

termination parseValue
proof (relation "measure (\<lambda>x. case x of
      Inl (Inl (input, index)) \<Rightarrow> 3 * (length input - index) + 2
    | Inl (Inr (input, index)) \<Rightarrow> 3 * (length input - index) + 1
    | Inr (Inl (input, index, result)) \<Rightarrow> 3 * (length input - index) + 3
    | Inr (Inr (input, index, list)) \<Rightarrow> 3 * (length input - index) + 3)", goal_cases)
  case 1
  show ?case by simp
next
  case (2 input index x x2)
  then show ?case
    using skipWhitespace_ge [of index input] by simp
next
  case (3 input index b x y xa ba)
  then show ?case
    using consume_Inr [of input index "Some (CHR ''{'')" x y] skipWhitespace_ge [of y input]
    by (simp; arith)
next
  case (4 input index b x y xa ba)
  then show ?case
    using consume_Inr [of input index "Some (CHR ''{'')" x y] skipWhitespace_ge [of y input]
    by (simp; arith)
next
  case (5 input index result b x y ba xa ya)
  then show ?case
    using parseKey_advances [of input index x y]
      consume_Inr [of input "skipWhitespace input y" "Some (CHR '':'')" xa ya]
      skipWhitespace_ge [of y input]
    by (simp; arith)
next
  case (6 input index result b x y ba xa ya bb xaa yb xab)
  then have k: "parseKey input index = Inr (x, y)"
    and c: "consume input (skipWhitespace input y) (Some (CHR '':'')) = Inr (xa, ya)"
    and v: "parseValue input ya = Inr (xaa, yb)"
    and p: "peek input (skipWhitespace input yb) = Some (CHR '','')"
    and xab: "xab = skipWhitespace input yb"
    and dom: "parseValue_parseCollection_parseRecordEntries_parseListItems_dom (Inl (Inl (input, ya)))"
    by auto
  from parse_advances_partial(1) [OF dom] v have "ya < yb" by blast
  moreover from parseKey_advances [OF k] consume_Inr [OF c] skipWhitespace_ge [of y input]
  have "index < ya" by simp
  moreover from p have "skipWhitespace input yb < length input" by (simp add: peek_Some)
  moreover have "yb \<le> skipWhitespace input yb" by (rule skipWhitespace_ge)
  ultimately have "index < xab" "xab < length input" by (simp_all add: xab)
  then show ?case by simp
next
  case (7 input index list)
  show ?case by simp
next
  case (8 input index list b x y xa)
  then have v: "parseValue input index = Inr (x, y)"
    and p: "peek input (skipWhitespace input y) = Some (CHR '','')"
    and xa: "xa = skipWhitespace input y"
    and dom: "parseValue_parseCollection_parseRecordEntries_parseListItems_dom (Inl (Inl (input, index)))"
    by auto
  from parse_advances_partial(1) [OF dom] v have "index < y" by blast
  moreover from p have "skipWhitespace input y < length input" by (simp add: peek_Some)
  moreover have "y \<le> skipWhitespace input y" by (rule skipWhitespace_ge)
  ultimately have "index < xa" "xa < length input" by (simp_all add: xa)
  then show ?case by simp
qed

declare parseValue.simps [simp del] parseCollection.simps [simp del]
  parseRecordEntries.simps [simp del] parseListItems.simps [simp del]

text \<open>\<^verbatim>\<open>parse\<close>: one value, then nothing but white space.\<close>

definition parse :: "string \<Rightarrow> error + AppleScriptValue" where
  "parse input =
     (case parseValue input (skipWhitespace input 0) of
        Inl err \<Rightarrow> Inl err
      | Inr (v, j) \<Rightarrow>
          if skipWhitespace input j < length input
          then Inl (Error ''Unexpected trailing content in AppleScript result'')
          else Inr v)"

text \<open>\<^verbatim>\<open>text.replace(/^=>\s*/, "")\<close>.\<close>

definition stripPrefix :: "string \<Rightarrow> string" where
  "stripPrefix s = (if take 2 s = ''=>'' then dropWhile isWhitespaceChar (drop 2 s) else s)"

text \<open>\<^verbatim>\<open>parseAppleScriptResult\<close>: a value that is not a string is passed through when it is
  \<^verbatim>\<open>null\<close>, absent, an array or an object, and refused otherwise.\<close>

definition parseAppleScriptResult :: "AppleScriptValue \<Rightarrow> error + AppleScriptValue" where
  "parseAppleScriptResult raw =
     (case raw of
        VNull \<Rightarrow> Inr VNull
      | VUndefined \<Rightarrow> Inr VNull
      | VList xs \<Rightarrow> Inr raw
      | VRec r \<Rightarrow> Inr raw
      | VStr s \<Rightarrow>
          (let trimmed = trim s in
           if trimmed = [] then Inr VNull
           else parse (stripPrefix trimmed))
      | _ \<Rightarrow> Inl (Error ''Unsupported AppleScript return type''))"

section \<open>The grammar of the bridge's text\<close>

text \<open>
  The body of a string literal is a sequence of items: a plain character, which is
  neither a double quote nor a backslash, or a backslash and the character it escapes.
\<close>

datatype string_item = Plain char | Escaped char

fun item_text :: "string_item \<Rightarrow> string" where
  "item_text (Plain c) = [c]"
| "item_text (Escaped c) = [CHR 0x5C, c]"

fun item_value :: "string_item \<Rightarrow> char" where
  "item_value (Plain c) = c"
| "item_value (Escaped c) = unescape c"

fun item_ok :: "string_item \<Rightarrow> bool" where
  "item_ok (Plain c) = (c \<noteq> CHR 0x22 \<and> c \<noteq> CHR 0x5C)"
| "item_ok (Escaped c) = True"

definition body_text :: "string_item list \<Rightarrow> string" where
  "body_text items = concat (map item_text items)"

text \<open>
  \<open>skipped d s d'\<close>: the text \<open>s\<close>, read from nesting depth \<open>d\<close>, is made of white space,
  whole string literals, braces that open and close nested groups, and other characters
  none of which is, at depth 0, a colon or a comma; reading it ends at depth \<open>d'\<close>. It
  holds no brace that closes the collection itself (a closing brace at depth 0).
\<close>

inductive skipped :: "nat \<Rightarrow> string \<Rightarrow> nat \<Rightarrow> bool" where
  Done: "skipped d [] d"
| White: "isWhitespaceChar c \<Longrightarrow> skipped d s d' \<Longrightarrow> skipped d (c # s) d'"
| Literal: "list_all item_ok items \<Longrightarrow> skipped d s d'
            \<Longrightarrow> skipped d (CHR 0x22 # body_text items @ CHR 0x22 # s) d'"
| Open: "skipped (Suc d) s d' \<Longrightarrow> skipped d (CHR ''{'' # s) d'"
| Close: "skipped d s d' \<Longrightarrow> skipped (Suc d) (CHR ''}'' # s) d'"
| Other: "\<not> isWhitespaceChar c \<Longrightarrow> c \<noteq> CHR 0x22 \<Longrightarrow> c \<noteq> CHR ''{'' \<Longrightarrow> c \<noteq> CHR ''}''
            \<Longrightarrow> d = 0 \<longrightarrow> c \<noteq> CHR '':'' \<and> c \<noteq> CHR '',''
            \<Longrightarrow> skipped d s d' \<Longrightarrow> skipped d (c # s) d'"

section \<open>From the bridge's result to the result of a fetch\<close>


text \<open>Comparison of numbers, \<open>None\<close> being \<^verbatim>\<open>NaN\<close>: false when either side is \<^verbatim>\<open>NaN\<close>.\<close>

definition num_ge :: "int option \<Rightarrow> int option \<Rightarrow> bool" where
  "num_ge a b = (case (a, b) of (Some x, Some y) \<Rightarrow> y \<le> x | _ \<Rightarrow> False)"






section \<open>Properties of the coercion library\<close>

text \<open>
  C4 (as amended). \<open>coerceString v f\<close> returns \<open>f\<close> when \<open>v\<close> is null or absent, \<open>v\<close> itself when
  it is a string, and the canonical text of a boolean or a number. A container is not
  replaced by the fallback: a list gives the comma-joined texts of its elements, and a
  record gives \<^verbatim>\<open>[object Object]\<close> (or a \<^verbatim>\<open>TypeError\<close> when it has a key \<^verbatim>\<open>toString\<close>),
  whatever the fallback is.
\<close>

theorem coerceString_cases:
  "coerceString VNull f = Inr f
   \<and> coerceString VUndefined f = Inr f
   \<and> coerceString (VStr s) f = Inr s
   \<and> coerceString (VBool b) f = Inr (if b then ''true'' else ''false'')
   \<and> coerceString (VNum x) f = Inr (Number_toString x)
   \<and> coerceString (VList xs) f =
        (case element_texts xs of Inl err \<Rightarrow> Inl err | Inr ts \<Rightarrow> Inr (join '','' ts))
   \<and> coerceString (VRec r) f =
        (if has_key ''toString'' r then Inl TypeError else Inr ''[object Object]'')"
  by (simp add: coerceString_def)

text \<open>
  C4 as stated fails: a list of two numbers and an empty record are stringified
  structurally instead of giving the fallback.
\<close>

theorem coerceString_container_counterexample:
  "coerceString (VList [VNum (Finite 1 0), VNum (Finite 2 0)]) ''fallback'' = Inr ''1,2''
   \<and> coerceString (VList [VNum (Finite 1 0), VNum (Finite 2 0)]) ''fallback'' \<noteq> Inr ''fallback''
   \<and> coerceString (VRec []) ''fallback'' = Inr ''[object Object]''
   \<and> coerceString (VRec []) ''fallback'' \<noteq> Inr ''fallback''"
  by code_simp

section \<open>Auxiliary facts\<close>

lemma bindE_Inr_iff: "bindE x f = Inr y \<longleftrightarrow> (\<exists>a. x = Inr a \<and> f a = Inr y)"
  by (cases x) (simp_all add: bindE_def)


lemma mapE_Inr: "mapE f xs = Inr ys \<Longrightarrow> list_all2 (\<lambda>x y. f x = Inr y) xs ys"
  by (induction xs arbitrary: ys) (auto split: sum.splits)


subsection \<open>Which errors the conversions throw\<close>












subsection \<open>Sorting\<close>

lemma set_insert_sorted: "set (insert_sorted compare x ys) = insert x (set ys)"
  by (induction ys) auto

lemma set_Array_sort: "set (Array_sort compare xs) = set xs"
  by (induction xs) (simp_all add: Array_sort_def set_insert_sorted)

lemma insert_sorted_insort_key:
  fixes key :: "'a \<Rightarrow> int"
  assumes "\<And>y. y \<in> set ys \<Longrightarrow>
             (case compare x y of Some d \<Rightarrow> 0 < d | None \<Rightarrow> False) \<longleftrightarrow> key y < key x"
  shows "insert_sorted compare x ys = insort_key key x ys"
  using assms by (induction ys) (auto simp: not_less)

lemma Array_sort_sort_key:
  fixes key :: "'a \<Rightarrow> int"
  assumes "\<And>x y. x \<in> set xs \<Longrightarrow> y \<in> set xs \<Longrightarrow>
             (case compare x y of Some d \<Rightarrow> 0 < d | None \<Rightarrow> False) \<longleftrightarrow> key y < key x"
  shows "Array_sort compare xs = sort_key key xs"
  using assms
proof (induction xs)
  case Nil
  show ?case by (simp add: Array_sort_def)
next
  case (Cons x xs)
  have IH: "Array_sort compare xs = sort_key key xs"
    using Cons.prems by (intro Cons.IH) simp_all
  have "insert_sorted compare x (sort_key key xs) = insort_key key x (sort_key key xs)"
    using Cons.prems by (intro insert_sorted_insort_key) simp_all
  with IH show ?case by (simp add: Array_sort_def)
qed

lemma Array_sort_compareEvents:
  "Array_sort (compareEvents dp) xs = sort_key (getEventSortKey dp) xs"
  by (rule Array_sort_sort_key) (simp add: compareEvents_def)

lemma Array_sort_compareNotes:
  assumes "\<forall>n \<in> set xs. noteTime n \<noteq> None"
  shows "Array_sort compareNotes xs = sort_key (\<lambda>n. - the (noteTime n)) xs"
proof (rule Array_sort_sort_key)
  fix x y assume "x \<in> set xs" "y \<in> set xs"
  with assms have "noteTime x \<noteq> None" "noteTime y \<noteq> None" by blast+
  then obtain a b where "noteTime x = Some a" "noteTime y = Some b" by blast
  then show "(case compareNotes x y of Some d \<Rightarrow> 0 < d | None \<Rightarrow> False)
               \<longleftrightarrow> - the (noteTime y) < - the (noteTime x)"
    by (simp add: compareNotes_def)
qed

subsection \<open>The map of deduplicated events\<close>

text \<open>The entries of the map after a run of \<open>set\<close> calls.\<close>

definition set_all :: "(string \<times> 'v) list \<Rightarrow> (string \<times> 'v) list \<Rightarrow> (string \<times> 'v) list" where
  "set_all ps d = fold (\<lambda>p acc. map_set (fst p) (snd p) acc) ps d"

lemma set_all_snoc: "set_all (ps @ [p]) d = map_set (fst p) (snd p) (set_all ps d)"
  by (simp add: set_all_def)

lemma map_of_map_set: "map_of (map_set k v ps) = (map_of ps)(k \<mapsto> v)"
  by (induction ps) (auto simp: fun_eq_iff)

lemma keys_map_set:
  "map fst (map_set k v ps) = (if k \<in> fst ` set ps then map fst ps else map fst ps @ [k])"
  by (induction ps) auto

lemma entries_map_set: "set (map_set k v ps) \<subseteq> insert (k, v) (set ps)"
  by (induction ps) auto

lemma distinct_map_set: "distinct (map fst ps) \<Longrightarrow> distinct (map fst (map_set k v ps))"
  by (simp add: keys_map_set)

lemma distinct_set_all: "distinct (map fst d) \<Longrightarrow> distinct (map fst (set_all ps d))"
  by (induction ps rule: rev_induct) (simp_all add: set_all_snoc distinct_map_set, simp add: set_all_def)

lemma keys_set_all: "map fst (set_all ps []) = rev (remdups (rev (map fst ps)))"
proof (induction ps rule: rev_induct)
  case Nil
  show ?case by (simp add: set_all_def)
next
  case (snoc p ps)
  have "set (map fst (set_all ps [])) = fst ` set ps"
    by (simp add: snoc.IH)
  then have "fst ` set (set_all ps []) = fst ` set ps" by simp
  then show ?case using snoc.IH by (simp add: set_all_snoc keys_map_set)
qed

lemma entries_set_all: "set (set_all ps d) \<subseteq> set ps \<union> set d"
proof (induction ps rule: rev_induct)
  case Nil
  show ?case by (simp add: set_all_def)
next
  case (snoc p ps)
  then show ?case using entries_map_set [of "fst p" "snd p" "set_all ps d"]
    by (auto simp: set_all_snoc)
qed

lemma map_of_set_all:
  "map_of (set_all ps d) i =
     (if i \<in> fst ` set ps then Some (snd (last (filter (\<lambda>p. fst p = i) ps))) else map_of d i)"
proof (induction ps rule: rev_induct)
  case Nil
  show ?case by (simp add: set_all_def)
next
  case (snoc p ps)
  then show ?case by (auto simp: set_all_snoc map_of_map_set)
qed

lemma collectEvents_Inr:
  "collectEvents records d f = Inr (d', f') \<Longrightarrow>
     \<exists>pairs. list_all2 (\<lambda>r p. mapEventRecord r = Inr p) records pairs
       \<and> d' = set_all (filter (\<lambda>p. fst p \<noteq> []) pairs) d
       \<and> f' = f @ map snd (filter (\<lambda>p. fst p = []) pairs)"
proof (induction records arbitrary: d f)
  case Nil
  then show ?case by (simp add: set_all_def)
next
  case (Cons r records)
  from Cons.prems obtain ident event where p: "mapEventRecord r = Inr (ident, event)"
    by (auto split: sum.splits)
  show ?case
  proof (cases "ident = []")
    case True
    with Cons.prems p have "collectEvents records d (f @ [event]) = Inr (d', f')" by simp
    from Cons.IH [OF this] obtain pairs where
      "list_all2 (\<lambda>r p. mapEventRecord r = Inr p) records pairs"
      "d' = set_all (filter (\<lambda>p. fst p \<noteq> []) pairs) d"
      "f' = (f @ [event]) @ map snd (filter (\<lambda>p. fst p = []) pairs)" by blast
    with p True show ?thesis
      by (intro exI [of _ "(ident, event) # pairs"]) simp
  next
    case False
    with Cons.prems p have "collectEvents records (map_set ident event d) f = Inr (d', f')" by simp
    from Cons.IH [OF this] obtain pairs where
      "list_all2 (\<lambda>r p. mapEventRecord r = Inr p) records pairs"
      "d' = set_all (filter (\<lambda>p. fst p \<noteq> []) pairs) (map_set ident event d)"
      "f' = f @ map snd (filter (\<lambda>p. fst p = []) pairs)" by blast
    with p False show ?thesis
      by (intro exI [of _ "(ident, event) # pairs"]) (simp add: set_all_def)
  qed
qed

lemma mapEventRecord_id:
  "mapEventRecord record = Inr (ident, e) \<Longrightarrow>
     coerceString (getProp record ''id'') [] = Inr ident
     \<and> e_id e = (if ident \<noteq> [] then ident
                 else e_title e @ ''-'' @ (case e_startDate e of Some s \<Rightarrow> s | None \<Rightarrow> ''unknown'')
                      @ ''-'' @ e_calendarName e)"
  by (auto simp: mapEventRecord_def bindE_Inr_iff)

subsection \<open>Time values\<close>

lemma TimeClip_bound: "TimeClip x = Some t \<Longrightarrow> \<bar>t\<bar> \<le> 8640000000000000"
  by (auto simp: TimeClip_def split: if_splits)

lemma parse_iso_utc_bound: "parse_iso_utc s = Some t \<Longrightarrow> \<bar>t\<bar> \<le> 8640000000000000"
  unfolding parse_iso_utc_def Let_def
  by (auto split: if_splits prod.splits dest: TimeClip_bound)

lemma Date_parse_bound:
  assumes "\<forall>s t. dp s = Some t \<longrightarrow> \<bar>t\<bar> \<le> 8640000000000000"
    and "Date_parse dp s = Some t"
  shows "\<bar>t\<bar> \<le> 8640000000000000"
  using assms by (auto simp: Date_parse_def split: option.splits dest: parse_iso_utc_bound)

lemma getEventSortKey_bound:
  assumes "\<forall>s t. dp s = Some t \<longrightarrow> \<bar>t\<bar> \<le> 8640000000000000"
  shows "getEventSortKey dp e \<le> MAX_SAFE_INTEGER
         \<and> (getEventSortKey dp e = MAX_SAFE_INTEGER
              \<longleftrightarrow> parsedTime dp (e_startDate e) = None \<and> parsedTime dp (e_endDate e) = None)"
proof -
  have b: "\<bar>t\<bar> \<le> 8640000000000000" if "parsedTime dp f = Some t" for f t
    using that Date_parse_bound [OF assms]
    by (auto simp: parsedTime_def split: option.splits if_splits)
  show ?thesis
    using b [of "e_startDate e"] b [of "e_endDate e"]
    by (auto simp: getEventSortKey_def MAX_SAFE_INTEGER_def split: option.splits)
qed

section \<open>The status envelope\<close>











section \<open>Properties of the mappers\<close>

text \<open>
  C3. The mappers are not total: a record whose \<^verbatim>\<open>startDate\<close> is the number
  \<open>9000000000000\<close> (seconds; beyond the range of a \<^verbatim>\<open>Date\<close>) makes the event mapper throw a
  \<^verbatim>\<open>RangeError\<close>, and the valid record after it is not produced.
\<close>

theorem mapEventRecords_throws:
  "mapEventRecords (\<lambda>_. None)
     (VList [VRec [(''title'', VStr ''far''), (''startDate'', VNum (Finite 9000000000000 0))],
             VRec [(''title'', VStr ''near''), (''startDate'', VNum (Finite 100 0))]])
   = Inl RangeError"
  by code_simp

text \<open>
  C5 (as amended). When the event mapper returns: every record was mapped, to a pair of
  the identifier read from it and its event; \<^verbatim>\<open>deduped\<close> holds one entry for each non-empty
  identifier, in the order of first occurrence, and its event is the one of the last
  record with that identifier; the events of the records with no identifier follow, in
  the order met; the result is that sequence sorted by one key, \<^verbatim>\<open>getEventSortKey\<close>,
  ascending. The key is the start time, or else the end time, or else
  \<^verbatim>\<open>MAX_SAFE_INTEGER\<close>, which no time reaches: events with neither time come last. The
  sort is stable and compares nothing else: the events with the same key (the same
  start time, say) stay in the order of that sequence, whatever their end times.
  (\<open>dp\<close> is \<^verbatim>\<open>Date.parse\<close> on the texts that are not ISO dates; its values are time values.)
\<close>

theorem mapEventRecords_dedup_sorted:
  assumes "mapEventRecords dp raw = Inr out"
    and "\<forall>s t. dp s = Some t \<longrightarrow> \<bar>t\<bar> \<le> 8640000000000000"
  shows "\<exists>pairs deduped.
           list_all2 (\<lambda>record p. mapEventRecord record = Inr p) (eventRecords raw) pairs
         \<and> map fst deduped = rev (remdups (rev (filter (\<lambda>i. i \<noteq> []) (map fst pairs))))
         \<and> (\<forall>(i, e) \<in> set deduped. e = snd (last (filter (\<lambda>p. fst p = i) pairs)))
         \<and> out = sort_key (getEventSortKey dp)
                   (map snd deduped @ map snd (filter (\<lambda>p. fst p = []) pairs))
         \<and> sorted (map (getEventSortKey dp) out)
         \<and> (\<forall>k. filter (\<lambda>e. getEventSortKey dp e = k) out
                  = filter (\<lambda>e. getEventSortKey dp e = k)
                      (map snd deduped @ map snd (filter (\<lambda>p. fst p = []) pairs)))
         \<and> (\<forall>e \<in> set out.
               getEventSortKey dp e \<le> MAX_SAFE_INTEGER
               \<and> (getEventSortKey dp e = MAX_SAFE_INTEGER \<longleftrightarrow>
                    parsedTime dp (e_startDate e) = None \<and> parsedTime dp (e_endDate e) = None)
               \<and> getEventSortKey dp e =
                    (case parsedTime dp (e_startDate e) of
                       Some t \<Rightarrow> t
                     | None \<Rightarrow> (case parsedTime dp (e_endDate e) of
                                  Some t \<Rightarrow> t | None \<Rightarrow> MAX_SAFE_INTEGER)))"
proof -
  from assms(1) obtain deduped fallback where
    c: "collectEvents (eventRecords raw) [] [] = Inr (deduped, fallback)"
    and out: "out = Array_sort (compareEvents dp) (map snd deduped @ fallback)"
    by (auto simp: mapEventRecords_def bindE_Inr_iff)
  from collectEvents_Inr [OF c] obtain pairs where
    p: "list_all2 (\<lambda>r p. mapEventRecord r = Inr p) (eventRecords raw) pairs"
    and d: "deduped = set_all (filter (\<lambda>p. fst p \<noteq> []) pairs) []"
    and f: "fallback = map snd (filter (\<lambda>p. fst p = []) pairs)"
    by auto
  have keys: "map fst deduped = rev (remdups (rev (filter (\<lambda>i. i \<noteq> []) (map fst pairs))))"
    by (simp add: d keys_set_all filter_map comp_def)
  have dist: "distinct (map fst deduped)"
    by (simp add: d distinct_set_all)
  have last: "e = snd (last (filter (\<lambda>p. fst p = i) pairs))" if "(i, e) \<in> set deduped" for i e
  proof -
    from that dist have "map_of deduped i = Some e" by simp
    moreover from that have "i \<in> fst ` set deduped" by force
    then have "i \<in> fst ` set (filter (\<lambda>p. fst p \<noteq> []) pairs)"
      using entries_set_all [of "filter (\<lambda>p. fst p \<noteq> []) pairs" "[]"] d by auto
    moreover have "filter (\<lambda>p. fst p = i) (filter (\<lambda>p. fst p \<noteq> []) pairs)
                   = filter (\<lambda>p. fst p = i) pairs" if "i \<noteq> []"
      using that by (auto intro: filter_cong)
    ultimately show ?thesis
      by (auto simp: d map_of_set_all split: if_splits)
  qed
  have sorted_out: "out = sort_key (getEventSortKey dp)
                       (map snd deduped @ map snd (filter (\<lambda>p. fst p = []) pairs))"
    by (simp add: out f Array_sort_compareEvents)
  then have "sorted (map (getEventSortKey dp) out)" by simp
  moreover have "\<forall>k. filter (\<lambda>e. getEventSortKey dp e = k) out
                  = filter (\<lambda>e. getEventSortKey dp e = k)
                      (map snd deduped @ map snd (filter (\<lambda>p. fst p = []) pairs))"
    unfolding sorted_out by (simp only: sort_key_stable) simp
  moreover have "\<forall>e \<in> set out.
               getEventSortKey dp e \<le> MAX_SAFE_INTEGER
               \<and> (getEventSortKey dp e = MAX_SAFE_INTEGER \<longleftrightarrow>
                    parsedTime dp (e_startDate e) = None \<and> parsedTime dp (e_endDate e) = None)
               \<and> getEventSortKey dp e =
                    (case parsedTime dp (e_startDate e) of
                       Some t \<Rightarrow> t
                     | None \<Rightarrow> (case parsedTime dp (e_endDate e) of
                                  Some t \<Rightarrow> t | None \<Rightarrow> MAX_SAFE_INTEGER))"
    using getEventSortKey_bound [OF assms(2)] by (simp add: getEventSortKey_def)
  ultimately show ?thesis
    using p keys last sorted_out by blast
qed


theorem mapEventRecords_dedup_sorted_witness:
  "mapEventRecords (\<lambda>_. None)
     (VList [VRec [(''id'', VStr ''E1''), (''title'', VStr ''first''), (''startDate'', VStr ''300'')],
             VRec [(''title'', VStr ''b''), (''startDate'', VStr ''100'')],
             VRec [(''id'', VStr ''E1''), (''title'', VStr ''second''), (''startDate'', VStr ''200'')],
             VRec [(''title'', VStr ''c'')]])
   = Inr [\<lparr>e_id = ''b-1970-01-01T00:01:40.000Z-Unknown Calendar'',
           e_title = ''b'', e_location = None, e_notes = None,
           e_startDate = Some ''1970-01-01T00:01:40.000Z'', e_endDate = None,
           e_calendarName = ''Unknown Calendar'', e_isAllDay = False, e_url = None\<rparr>,
         \<lparr>e_id = ''E1'', e_title = ''second'', e_location = None, e_notes = None,
           e_startDate = Some ''1970-01-01T00:03:20.000Z'', e_endDate = None,
           e_calendarName = ''Unknown Calendar'', e_isAllDay = False, e_url = None\<rparr>,
         \<lparr>e_id = ''c-unknown-Unknown Calendar'', e_title = ''c'', e_location = None,
           e_notes = None, e_startDate = None, e_endDate = None,
           e_calendarName = ''Unknown Calendar'', e_isAllDay = False, e_url = None\<rparr>]
   \<and> sorted (map (getEventSortKey (\<lambda>_. None))
        [\<lparr>e_id = ''b-1970-01-01T00:01:40.000Z-Unknown Calendar'',
           e_title = ''b'', e_location = None, e_notes = None,
           e_startDate = Some ''1970-01-01T00:01:40.000Z'', e_endDate = None,
           e_calendarName = ''Unknown Calendar'', e_isAllDay = False, e_url = None\<rparr>,
         \<lparr>e_id = ''E1'', e_title = ''second'', e_location = None, e_notes = None,
           e_startDate = Some ''1970-01-01T00:03:20.000Z'', e_endDate = None,
           e_calendarName = ''Unknown Calendar'', e_isAllDay = False, e_url = None\<rparr>,
         \<lparr>e_id = ''c-unknown-Unknown Calendar'', e_title = ''c'', e_location = None,
           e_notes = None, e_startDate = None, e_endDate = None,
           e_calendarName = ''Unknown Calendar'', e_isAllDay = False, e_url = None\<rparr>])"
proof -
  have h: "mapEventRecords (\<lambda>_. None)
     (VList [VRec [(''id'', VStr ''E1''), (''title'', VStr ''first''), (''startDate'', VStr ''300'')],
             VRec [(''title'', VStr ''b''), (''startDate'', VStr ''100'')],
             VRec [(''id'', VStr ''E1''), (''title'', VStr ''second''), (''startDate'', VStr ''200'')],
             VRec [(''title'', VStr ''c'')]])
   = Inr [\<lparr>e_id = ''b-1970-01-01T00:01:40.000Z-Unknown Calendar'',
           e_title = ''b'', e_location = None, e_notes = None,
           e_startDate = Some ''1970-01-01T00:01:40.000Z'', e_endDate = None,
           e_calendarName = ''Unknown Calendar'', e_isAllDay = False, e_url = None\<rparr>,
         \<lparr>e_id = ''E1'', e_title = ''second'', e_location = None, e_notes = None,
           e_startDate = Some ''1970-01-01T00:03:20.000Z'', e_endDate = None,
           e_calendarName = ''Unknown Calendar'', e_isAllDay = False, e_url = None\<rparr>,
         \<lparr>e_id = ''c-unknown-Unknown Calendar'', e_title = ''c'', e_location = None,
           e_notes = None, e_startDate = None, e_endDate = None,
           e_calendarName = ''Unknown Calendar'', e_isAllDay = False, e_url = None\<rparr>]"
    by code_simp
  have b: "\<forall>s t. (\<lambda>_. None :: int option) s = Some t \<longrightarrow> \<bar>t\<bar> \<le> 8640000000000000"
    by simp
  from mapEventRecords_dedup_sorted [OF h b] h show ?thesis by blast
qed

text \<open>
  C5 as stated fails: the end time is no tie-break. Two events that start at the same
  time, the first ending later than the second, come out in the order they came in:
  the one that ends later first.
\<close>

theorem mapEventRecords_end_time_counterexample:
  "mapEventRecords (\<lambda>_. None)
     (VList [VRec [(''title'', VStr ''long''), (''startDate'', VNum (Finite 100 0)),
                   (''endDate'', VNum (Finite 200 0))],
             VRec [(''title'', VStr ''short''), (''startDate'', VNum (Finite 100 0)),
                   (''endDate'', VNum (Finite 100 0))]])
   = Inr [\<lparr>e_id = ''long-1970-01-01T00:01:40.000Z-Unknown Calendar'',
           e_title = ''long'', e_location = None, e_notes = None,
           e_startDate = Some ''1970-01-01T00:01:40.000Z'',
           e_endDate = Some ''1970-01-01T00:03:20.000Z'',
           e_calendarName = ''Unknown Calendar'', e_isAllDay = False, e_url = None\<rparr>,
         \<lparr>e_id = ''short-1970-01-01T00:01:40.000Z-Unknown Calendar'',
           e_title = ''short'', e_location = None, e_notes = None,
           e_startDate = Some ''1970-01-01T00:01:40.000Z'',
           e_endDate = Some ''1970-01-01T00:01:40.000Z'',
           e_calendarName = ''Unknown Calendar'', e_isAllDay = False, e_url = None\<rparr>]
   \<and> parsedTime (\<lambda>_. None) (Some ''1970-01-01T00:01:40.000Z'') = Some 100000
   \<and> parsedTime (\<lambda>_. None) (Some ''1970-01-01T00:03:20.000Z'') = Some 200000
   \<and> compareEvents (\<lambda>_. None)
        \<lparr>e_id = ''long-1970-01-01T00:01:40.000Z-Unknown Calendar'',
          e_title = ''long'', e_location = None, e_notes = None,
          e_startDate = Some ''1970-01-01T00:01:40.000Z'',
          e_endDate = Some ''1970-01-01T00:03:20.000Z'',
          e_calendarName = ''Unknown Calendar'', e_isAllDay = False, e_url = None\<rparr>
        \<lparr>e_id = ''short-1970-01-01T00:01:40.000Z-Unknown Calendar'',
          e_title = ''short'', e_location = None, e_notes = None,
          e_startDate = Some ''1970-01-01T00:01:40.000Z'',
          e_endDate = Some ''1970-01-01T00:01:40.000Z'',
          e_calendarName = ''Unknown Calendar'', e_isAllDay = False, e_url = None\<rparr>
       = Some 0"
  by code_simp

text \<open>
  C10. Every event the mapper produces has a non-empty \<^verbatim>\<open>id\<close>: the event comes from a
  record; when the identifier read from the record is not empty it is the event's, and
  when it is empty (or absent) the event's is the title, a hyphen, the start date or
  \<^verbatim>\<open>unknown\<close>, a hyphen and the calendar name.
\<close>

theorem mapEventRecords_id_nonempty:
  assumes "mapEventRecords dp raw = Inr out" and "e \<in> set out"
  shows "e_id e \<noteq> []
         \<and> (\<exists>record ident.
               record \<in> set (eventRecords raw)
             \<and> mapEventRecord record = Inr (ident, e)
             \<and> coerceString (getProp record ''id'') [] = Inr ident
             \<and> e_id e = (if ident \<noteq> [] then ident
                         else e_title e @ ''-''
                              @ (case e_startDate e of Some s \<Rightarrow> s | None \<Rightarrow> ''unknown'')
                              @ ''-'' @ e_calendarName e))"
proof -
  from assms(1) obtain deduped fallback where
    c: "collectEvents (eventRecords raw) [] [] = Inr (deduped, fallback)"
    and out: "out = Array_sort (compareEvents dp) (map snd deduped @ fallback)"
    by (auto simp: mapEventRecords_def bindE_Inr_iff)
  from collectEvents_Inr [OF c] obtain pairs where
    p: "list_all2 (\<lambda>r p. mapEventRecord r = Inr p) (eventRecords raw) pairs"
    and d: "deduped = set_all (filter (\<lambda>p. fst p \<noteq> []) pairs) []"
    and f: "fallback = map snd (filter (\<lambda>p. fst p = []) pairs)"
    by auto
  from assms(2) have "e \<in> snd ` set deduped \<union> set fallback"
    by (simp add: out set_Array_sort)
  then have "e \<in> snd ` set pairs"
    using entries_set_all [of "filter (\<lambda>p. fst p \<noteq> []) pairs" "[]"] by (auto simp: d f)
  then obtain ident where "(ident, e) \<in> set pairs" by auto
  then obtain k where k: "k < length pairs" "pairs ! k = (ident, e)"
    by (auto simp: in_set_conv_nth)
  with p have m: "mapEventRecord (eventRecords raw ! k) = Inr (ident, e)"
    and r: "eventRecords raw ! k \<in> set (eventRecords raw)"
    by (auto simp: list_all2_conv_all_nth)
  from mapEventRecord_id [OF m] have
    i: "coerceString (getProp (eventRecords raw ! k) ''id'') [] = Inr ident"
    and e: "e_id e = (if ident \<noteq> [] then ident
                      else e_title e @ ''-''
                           @ (case e_startDate e of Some s \<Rightarrow> s | None \<Rightarrow> ''unknown'')
                           @ ''-'' @ e_calendarName e)"
    by simp_all
  from e have "e_id e \<noteq> []" by (simp split: if_splits)
  with m r i e show ?thesis by blast
qed

theorem mapEventRecords_id_nonempty_witness:
  "mapEventRecords (\<lambda>_. None) (VList [VRec [(''title'', VStr ''c'')]])
     = Inr [\<lparr>e_id = ''c-unknown-Unknown Calendar'', e_title = ''c'', e_location = None,
             e_notes = None, e_startDate = None, e_endDate = None,
             e_calendarName = ''Unknown Calendar'', e_isAllDay = False, e_url = None\<rparr>]
   \<and> e_id \<lparr>e_id = ''c-unknown-Unknown Calendar'', e_title = ''c'', e_location = None,
             e_notes = None, e_startDate = None, e_endDate = None,
             e_calendarName = ''Unknown Calendar'', e_isAllDay = False, e_url = None\<rparr> \<noteq> []"
proof -
  let ?e = "\<lparr>e_id = ''c-unknown-Unknown Calendar'', e_title = ''c'', e_location = None,
             e_notes = None, e_startDate = None, e_endDate = None,
             e_calendarName = ''Unknown Calendar'', e_isAllDay = False, e_url = None\<rparr>"
  have h: "mapEventRecords (\<lambda>_. None) (VList [VRec [(''title'', VStr ''c'')]]) = Inr [?e]"
    by code_simp
  have m: "?e \<in> set [?e]" by simp
  from mapEventRecords_id_nonempty [OF h m] h show ?thesis by blast
qed

text \<open>
  When the note mapper returns and no mapped note carries an invalid date, its output is
  the notes of the records, sorted (stably) descending by the time of the note: the
  modification time, or else the creation time, or else zero.
\<close>

lemma mapNoteRecords_valid_dates:
  assumes "mapNoteRecords raw = Inr out"
    and "\<forall>n \<in> set out. noteTime n \<noteq> None"
  shows "\<exists>mapped.
           list_all2 (\<lambda>record n. mapNoteRecord record = Inr n) (noteRecords raw) mapped
         \<and> out = sort_key (\<lambda>n. - the (noteTime n)) mapped
         \<and> sorted_wrt (\<lambda>a b. num_ge (noteTime a) (noteTime b)) out
         \<and> (\<forall>n \<in> set out.
               noteTime n = (case n_modificationDate n of
                               Some d \<Rightarrow> d
                             | None \<Rightarrow> (case n_creationDate n of Some d \<Rightarrow> d | None \<Rightarrow> Some 0)))"
proof -
  from assms(1) obtain mapped where m: "mapE mapNoteRecord (noteRecords raw) = Inr mapped"
    and out: "out = Array_sort compareNotes mapped"
    by (auto simp: mapNoteRecords_def bindE_Inr_iff)
  have l: "list_all2 (\<lambda>record n. mapNoteRecord record = Inr n) (noteRecords raw) mapped"
    using m by (rule mapE_Inr)
  from out assms(2) have valid: "\<forall>n \<in> set mapped. noteTime n \<noteq> None"
    by (simp add: set_Array_sort)
  then have s: "out = sort_key (\<lambda>n. - the (noteTime n)) mapped"
    by (simp add: out Array_sort_compareNotes)
  then have "sorted (map (\<lambda>n. - the (noteTime n)) out)" by simp
  then have "sorted_wrt (\<lambda>a b. - the (noteTime a) \<le> - the (noteTime b)) out"
    by (simp add: sorted_map)
  then have "sorted_wrt (\<lambda>a b. num_ge (noteTime a) (noteTime b)) out"
  proof (rule sorted_wrt_mono_rel [rotated])
    fix a b assume "a \<in> set out" "b \<in> set out"
      and le: "- the (noteTime a) \<le> - the (noteTime b)"
    with assms(2) obtain x y where "noteTime a = Some x" "noteTime b = Some y" by blast
    with le show "num_ge (noteTime a) (noteTime b)" by (simp add: num_ge_def)
  qed
  moreover have "\<forall>n \<in> set out.
               noteTime n = (case n_modificationDate n of
                               Some d \<Rightarrow> d
                             | None \<Rightarrow> (case n_creationDate n of Some d \<Rightarrow> d | None \<Rightarrow> Some 0))"
    by (simp add: noteTime_def)
  ultimately show ?thesis using l s by blast
qed

lemma mapNoteRecords_valid_dates_example:
  "mapNoteRecords
     (VList [VRec [(''name'', VStr ''old''), (''modificationDate'', VStr ''100'')],
             VRec [(''name'', VStr ''new''), (''creationDate'', VNum (Finite 200 0))],
             VRec [(''name'', VStr ''undated'')]])
   = Inr [\<lparr>n_name = ''new'', n_content = [], n_folderName = None, n_id = None,
           n_creationDate = Some (Some 200000), n_modificationDate = None\<rparr>,
         \<lparr>n_name = ''old'', n_content = [], n_folderName = None, n_id = None,
           n_creationDate = None, n_modificationDate = Some (Some 100000)\<rparr>,
         \<lparr>n_name = ''undated'', n_content = [], n_folderName = None, n_id = None,
           n_creationDate = None, n_modificationDate = None\<rparr>]
   \<and> sorted_wrt (\<lambda>a b. num_ge (noteTime a) (noteTime b))
        [\<lparr>n_name = ''new'', n_content = [], n_folderName = None, n_id = None,
           n_creationDate = Some (Some 200000), n_modificationDate = None\<rparr>,
         \<lparr>n_name = ''old'', n_content = [], n_folderName = None, n_id = None,
           n_creationDate = None, n_modificationDate = Some (Some 100000)\<rparr>,
         \<lparr>n_name = ''undated'', n_content = [], n_folderName = None, n_id = None,
           n_creationDate = None, n_modificationDate = None\<rparr>]"
proof -
  let ?out = "[\<lparr>n_name = ''new'', n_content = [], n_folderName = None, n_id = None,
           n_creationDate = Some (Some 200000), n_modificationDate = None\<rparr>,
         \<lparr>n_name = ''old'', n_content = [], n_folderName = None, n_id = None,
           n_creationDate = None, n_modificationDate = Some (Some 100000)\<rparr>,
         \<lparr>n_name = ''undated'', n_content = [], n_folderName = None, n_id = None,
           n_creationDate = None, n_modificationDate = None\<rparr>]"
  have h: "mapNoteRecords
     (VList [VRec [(''name'', VStr ''old''), (''modificationDate'', VStr ''100'')],
             VRec [(''name'', VStr ''new''), (''creationDate'', VNum (Finite 200 0))],
             VRec [(''name'', VStr ''undated'')]]) = Inr ?out"
    by code_simp
  have v: "\<forall>n \<in> set ?out. noteTime n \<noteq> None"
    by (simp add: noteTime_def)
  from mapNoteRecords_valid_dates [OF h v] h show ?thesis by blast
qed

text \<open>
  C8. The note mapper does not always sort its output. A modification date beyond the
  range of a \<^verbatim>\<open>Date\<close> (here \<open>9000000000000\<close> seconds) gives an invalid date, which is not
  absent: the time of the note is \<^verbatim>\<open>NaN\<close>, neither the creation time nor zero, and the
  comparator returns \<^verbatim>\<open>NaN\<close> against every other note. The note \<open>b\<close> with that date and
  the creation time \<open>2000\<close>, and the note \<open>a\<close> with the modification time \<open>1000\<close>, come out
  in the order they came in, whichever it is: \<open>a\<close> before \<open>b\<close> is not descending when \<open>b\<close>
  falls back to its creation time, and \<open>b\<close> before \<open>a\<close> is not when it falls back to zero.
\<close>

theorem mapNoteRecords_invalid_date_unsorted:
  "mapNoteRecords
     (VList [VRec [(''name'', VStr ''a''), (''modificationDate'', VNum (Finite 1 0))],
             VRec [(''name'', VStr ''b''), (''creationDate'', VNum (Finite 2 0)),
                   (''modificationDate'', VNum (Finite 9000000000000 0))]])
   = Inr [\<lparr>n_name = ''a'', n_content = [], n_folderName = None, n_id = None,
           n_creationDate = None, n_modificationDate = Some (Some 1000)\<rparr>,
         \<lparr>n_name = ''b'', n_content = [], n_folderName = None, n_id = None,
           n_creationDate = Some (Some 2000), n_modificationDate = Some None\<rparr>]
   \<and> mapNoteRecords
     (VList [VRec [(''name'', VStr ''b''), (''creationDate'', VNum (Finite 2 0)),
                   (''modificationDate'', VNum (Finite 9000000000000 0))],
             VRec [(''name'', VStr ''a''), (''modificationDate'', VNum (Finite 1 0))]])
   = Inr [\<lparr>n_name = ''b'', n_content = [], n_folderName = None, n_id = None,
           n_creationDate = Some (Some 2000), n_modificationDate = Some None\<rparr>,
         \<lparr>n_name = ''a'', n_content = [], n_folderName = None, n_id = None,
           n_creationDate = None, n_modificationDate = Some (Some 1000)\<rparr>]
   \<and> toDateFromUnix (VNum (Finite 9000000000000 0)) = Some None
   \<and> noteTime \<lparr>n_name = ''a'', n_content = [], n_folderName = None, n_id = None,
           n_creationDate = None, n_modificationDate = Some (Some 1000)\<rparr> = Some 1000
   \<and> noteTime \<lparr>n_name = ''b'', n_content = [], n_folderName = None, n_id = None,
           n_creationDate = Some (Some 2000), n_modificationDate = Some None\<rparr> = None
   \<and> compareNotes
        \<lparr>n_name = ''a'', n_content = [], n_folderName = None, n_id = None,
           n_creationDate = None, n_modificationDate = Some (Some 1000)\<rparr>
        \<lparr>n_name = ''b'', n_content = [], n_folderName = None, n_id = None,
           n_creationDate = Some (Some 2000), n_modificationDate = Some None\<rparr> = None
   \<and> compareNotes
        \<lparr>n_name = ''b'', n_content = [], n_folderName = None, n_id = None,
           n_creationDate = Some (Some 2000), n_modificationDate = Some None\<rparr>
        \<lparr>n_name = ''a'', n_content = [], n_folderName = None, n_id = None,
           n_creationDate = None, n_modificationDate = Some (Some 1000)\<rparr> = None
   \<and> \<not> sorted_wrt (\<lambda>a b. num_ge (noteTime a) (noteTime b))
        [\<lparr>n_name = ''a'', n_content = [], n_folderName = None, n_id = None,
           n_creationDate = None, n_modificationDate = Some (Some 1000)\<rparr>,
         \<lparr>n_name = ''b'', n_content = [], n_folderName = None, n_id = None,
           n_creationDate = Some (Some 2000), n_modificationDate = Some None\<rparr>]
   \<and> \<not> sorted_wrt (\<lambda>a b. num_ge (noteTime a) (noteTime b))
        [\<lparr>n_name = ''b'', n_content = [], n_folderName = None, n_id = None,
           n_creationDate = Some (Some 2000), n_modificationDate = Some None\<rparr>,
         \<lparr>n_name = ''a'', n_content = [], n_folderName = None, n_id = None,
           n_creationDate = None, n_modificationDate = Some (Some 1000)\<rparr>]"
  by code_simp

text \<open>
  C9. When the email mapper returns: every record of the list was mapped to an
  email whose subject and sender are those \<^verbatim>\<open>coerceString\<close> reads from the record, and the
  output is these emails, in order, without those whose subject and sender are both
  empty. So an email with both empty is never in the output, and an email with one of
  the two non-empty always is.
\<close>

theorem mapEmailRecords_drop_rule:
  assumes "mapEmailRecords dp now (VList items) fb = Inr out"
  shows "\<exists>mapped.
           list_all2 (\<lambda>item email. mapEmailRecord dp now fb item = Inr email
                        \<and> coerceString (getProp item ''subject'') ''No subject'' = Inr (m_subject email)
                        \<and> coerceString (getProp item ''sender'') ''Unknown sender'' = Inr (m_sender email))
             (filter isObject items) mapped
           \<and> out = filter (\<lambda>email. \<not> (m_subject email = [] \<and> m_sender email = [])) mapped
           \<and> (\<forall>email \<in> set out. \<not> (m_subject email = [] \<and> m_sender email = []))
           \<and> (\<forall>email \<in> set mapped.
                 m_subject email \<noteq> [] \<or> m_sender email \<noteq> [] \<longrightarrow> email \<in> set out)"
proof -
  from assms obtain mapped where
    m: "mapE (mapEmailRecord dp now fb) (filter isObject items) = Inr mapped"
    and out: "out = filter (\<lambda>email. m_subject email \<noteq> [] \<or> m_sender email \<noteq> []) mapped"
    by (auto simp: mapEmailRecords_def bindE_Inr_iff)
  have "list_all2 (\<lambda>item email. mapEmailRecord dp now fb item = Inr email) (filter isObject items) mapped"
    using m by (rule mapE_Inr)
  then have "list_all2 (\<lambda>item email. mapEmailRecord dp now fb item = Inr email
                        \<and> coerceString (getProp item ''subject'') ''No subject'' = Inr (m_subject email)
                        \<and> coerceString (getProp item ''sender'') ''Unknown sender'' = Inr (m_sender email))
             (filter isObject items) mapped"
    by (rule list_all2_mono) (auto simp: mapEmailRecord_def bindE_Inr_iff)
  moreover have "out = filter (\<lambda>email. \<not> (m_subject email = [] \<and> m_sender email = [])) mapped"
    using out by simp
  moreover have "\<forall>email \<in> set out. \<not> (m_subject email = [] \<and> m_sender email = [])"
    using out by simp
  moreover have "\<forall>email \<in> set mapped.
                 m_subject email \<noteq> [] \<or> m_sender email \<noteq> [] \<longrightarrow> email \<in> set out"
    using out by simp
  ultimately show ?thesis by blast
qed

theorem mapEmailRecords_drop_rule_witness:
  "mapEmailRecords (\<lambda>_. None) 0
     (VList [VRec [(''subject'', VStr ''''), (''sender'', VStr '''')],
             VRec [(''subject'', VStr ''''), (''sender'', VStr ''ann@example.org''),
                   (''dateSent'', VStr ''yesterday'')],
             VRec [(''subject'', VStr ''hello''), (''sender'', VStr ''''),
                   (''dateSent'', VStr ''yesterday'')]]) None
   = Inr [\<lparr>m_subject = [], m_sender = ''ann@example.org'', m_dateSent = ''yesterday'',
           m_content = ''[Content not available]'', m_isRead = False,
           m_mailbox = ''Unknown mailbox''\<rparr>,
         \<lparr>m_subject = ''hello'', m_sender = [], m_dateSent = ''yesterday'',
           m_content = ''[Content not available]'', m_isRead = False,
           m_mailbox = ''Unknown mailbox''\<rparr>]
   \<and> (\<exists>mapped. length mapped = 3
        \<and> [\<lparr>m_subject = [], m_sender = ''ann@example.org'', m_dateSent = ''yesterday'',
             m_content = ''[Content not available]'', m_isRead = False,
             m_mailbox = ''Unknown mailbox''\<rparr>,
           \<lparr>m_subject = ''hello'', m_sender = [], m_dateSent = ''yesterday'',
             m_content = ''[Content not available]'', m_isRead = False,
             m_mailbox = ''Unknown mailbox''\<rparr>]
          = filter (\<lambda>email. \<not> (m_subject email = [] \<and> m_sender email = [])) mapped)"
proof -
  let ?items = "[VRec [(''subject'', VStr ''''), (''sender'', VStr '''')],
             VRec [(''subject'', VStr ''''), (''sender'', VStr ''ann@example.org''),
                   (''dateSent'', VStr ''yesterday'')],
             VRec [(''subject'', VStr ''hello''), (''sender'', VStr ''''),
                   (''dateSent'', VStr ''yesterday'')]]"
  let ?out = "[\<lparr>m_subject = [], m_sender = ''ann@example.org'', m_dateSent = ''yesterday'',
           m_content = ''[Content not available]'', m_isRead = False,
           m_mailbox = ''Unknown mailbox''\<rparr>,
         \<lparr>m_subject = ''hello'', m_sender = [], m_dateSent = ''yesterday'',
           m_content = ''[Content not available]'', m_isRead = False,
           m_mailbox = ''Unknown mailbox''\<rparr>]"
  have h: "mapEmailRecords (\<lambda>_. None) 0 (VList ?items) None = Inr ?out"
    by code_simp
  have o: "filter isObject ?items = ?items" by code_simp
  from mapEmailRecords_drop_rule [OF h] obtain mapped where
    "list_all2 (\<lambda>item email. mapEmailRecord (\<lambda>_. None) 0 None item = Inr email
                        \<and> coerceString (getProp item ''subject'') ''No subject'' = Inr (m_subject email)
                        \<and> coerceString (getProp item ''sender'') ''Unknown sender'' = Inr (m_sender email))
             (filter isObject ?items) mapped"
    and f: "?out = filter (\<lambda>email. \<not> (m_subject email = [] \<and> m_sender email = [])) mapped"
    by blast
  then have "length mapped = 3" unfolding o by (auto dest: list_all2_lengthD)
  with f h show ?thesis by blast
qed

section \<open>Properties of the parser\<close>

subsection \<open>String literals\<close>

lemma nth_append_at: "(pre @ c # rest) ! length pre = c"
  by simp

lemma parseString_loop_items:
  "list_all item_ok items \<Longrightarrow>
     parseString_loop (pre @ body_text items @ tail) (length pre) acc
       = parseString_loop (pre @ body_text items @ tail) (length pre + length (body_text items))
           (acc @ map item_value items)"
proof (induction items arbitrary: pre acc)
  case Nil
  show ?case by (simp add: body_text_def)
next
  case (Cons item items)
  then have ok: "list_all item_ok items" by simp
  show ?case
  proof (cases item)
    case (Plain c)
    with Cons.prems have c: "c \<noteq> CHR 0x22" "c \<noteq> CHR 0x5C" by simp_all
    let ?input = "(pre @ [c]) @ body_text items @ tail"
    have "parseString_loop ?input (length pre) acc
            = parseString_loop ?input (length (pre @ [c])) (acc @ [c])"
      using c by (subst parseString_loop.simps) (simp add: nth_append)
    also have "\<dots> = parseString_loop ?input (length (pre @ [c]) + length (body_text items))
                        ((acc @ [c]) @ map item_value items)"
      by (rule Cons.IH [OF ok])
    finally show ?thesis using Plain by (simp add: body_text_def)
  next
    case (Escaped c)
    let ?input = "(pre @ [CHR 0x5C, c]) @ body_text items @ tail"
    have "parseString_loop ?input (length pre) acc
            = parseString_loop ?input (length (pre @ [CHR 0x5C, c])) (acc @ [unescape c])"
      by (subst parseString_loop.simps) (simp add: nth_append)
    also have "\<dots> = parseString_loop ?input (length (pre @ [CHR 0x5C, c]) + length (body_text items))
                        ((acc @ [unescape c]) @ map item_value items)"
      by (rule Cons.IH [OF ok])
    finally show ?thesis using Escaped by (simp add: body_text_def)
  qed
qed

lemma parseString_open:
  "parseString (pre @ CHR 0x22 # s) (length pre) = parseString_loop ((pre @ [CHR 0x22]) @ s) (length (pre @ [CHR 0x22])) []"
  by (simp add: parseString_def consume_def)

lemma body_cases:
  "\<exists>items. list_all item_ok items
     \<and> (s = body_text items \<or> s = body_text items @ [CHR 0x5C]
         \<or> (\<exists>rest. s = body_text items @ CHR 0x22 # rest))"
proof (induction s rule: length_induct)
  case (1 s)
  show ?case
  proof (cases s)
    case Nil
    then show ?thesis by (intro exI [of _ "[]"]) (simp add: body_text_def)
  next
    case (Cons c t)
    show ?thesis
    proof (cases "c = CHR 0x22")
      case True
      with Cons show ?thesis by (intro exI [of _ "[]"]) (simp add: body_text_def)
    next
      case q: False
      show ?thesis
      proof (cases "c = CHR 0x5C")
        case False
        from 1 Cons obtain items where i: "list_all item_ok items"
          "t = body_text items \<or> t = body_text items @ [CHR 0x5C]
             \<or> (\<exists>rest. t = body_text items @ CHR 0x22 # rest)"
          by auto
        with Cons q False show ?thesis
          by (intro exI [of _ "Plain c # items"]) (auto simp: body_text_def)
      next
        case True
        show ?thesis
        proof (cases t)
          case Nil
          with Cons True show ?thesis by (intro exI [of _ "[]"]) (simp add: body_text_def)
        next
          case (Cons e u)
          with \<open>s = c # t\<close> have "length u < length s" by simp
          with 1 obtain items where i: "list_all item_ok items"
            "u = body_text items \<or> u = body_text items @ [CHR 0x5C]
               \<or> (\<exists>rest. u = body_text items @ CHR 0x22 # rest)"
            by blast
          with Cons True \<open>s = c # t\<close> show ?thesis
            by (intro exI [of _ "Escaped e # items"]) (auto simp: body_text_def)
        qed
      qed
    qed
  qed
qed

text \<open>
  C7. A string literal is an opening quote, a body of plain characters and escapes,
  and a closing quote. Its value has one character for each item: a plain character
  itself; for an escape, the quote, the backslash, the line feed, the carriage return
  or the tab when the escaped character is \<^verbatim>\<open>"\<close>, \<^verbatim>\<open>\\<close>, \<^verbatim>\<open>n\<close>, \<^verbatim>\<open>r\<close> or \<^verbatim>\<open>t\<close>, and the escaped
  character itself otherwise. The cursor ends after the closing quote. When the input
  ends before a closing quote the parser throws: \<^verbatim>\<open>Unterminated string literal\<close>, or
  \<^verbatim>\<open>Unexpected end\<close> when the input ends right after a backslash. Every text after an
  opening quote is of one of these three forms.
\<close>

theorem parseString_escapes:
  assumes "list_all item_ok items"
  shows "parseString (pre @ CHR 0x22 # body_text items @ CHR 0x22 # rest) (length pre)
           = Inr (map item_value items, length pre + length (body_text items) + 2)
         \<and> parseString (pre @ CHR 0x22 # body_text items) (length pre)
           = Inl (Error ''Unterminated string literal in AppleScript result'')
         \<and> parseString (pre @ CHR 0x22 # body_text items @ [CHR 0x5C]) (length pre)
           = Inl (Error ''Unexpected end of AppleScript result'')
         \<and> item_value (Escaped (CHR 0x22)) = CHR 0x22
         \<and> item_value (Escaped (CHR 0x5C)) = CHR 0x5C
         \<and> item_value (Escaped (CHR ''n'')) = CHR 0x0A
         \<and> item_value (Escaped (CHR ''r'')) = CHR 0x0D
         \<and> item_value (Escaped (CHR ''t'')) = CHR 0x09
         \<and> (c \<notin> {CHR 0x22, CHR 0x5C, CHR ''n'', CHR ''r'', CHR ''t''} \<longrightarrow> item_value (Escaped c) = c)
         \<and> item_value (Plain c) = c
         \<and> (\<exists>items'. list_all item_ok items'
               \<and> (s = body_text items' \<or> s = body_text items' @ [CHR 0x5C]
                   \<or> (\<exists>rest'. s = body_text items' @ CHR 0x22 # rest')))"
proof -
  let ?p = "pre @ [CHR 0x22]"
  let ?b = "body_text items"
  have 1: "parseString (pre @ CHR 0x22 # ?b @ CHR 0x22 # rest) (length pre)
           = Inr (map item_value items, length pre + length ?b + 2)"
  proof -
    have "parseString (pre @ CHR 0x22 # ?b @ CHR 0x22 # rest) (length pre)
            = parseString_loop (?p @ ?b @ CHR 0x22 # rest) (length ?p) []"
      by (simp add: parseString_open)
    also have "\<dots> = parseString_loop (?p @ ?b @ CHR 0x22 # rest) (length ?p + length ?b)
                        ([] @ map item_value items)"
      by (rule parseString_loop_items [OF assms])
    also have "\<dots> = Inr (map item_value items, length pre + length ?b + 2)"
      using nth_append_at [of "?p @ ?b" "CHR 0x22" rest]
      by (subst parseString_loop.simps) (simp del: append_assoc add: append_assoc [symmetric])
    finally show ?thesis .
  qed
  have 2: "parseString (pre @ CHR 0x22 # ?b) (length pre)
           = Inl (Error ''Unterminated string literal in AppleScript result'')"
  proof -
    have "parseString (pre @ CHR 0x22 # ?b @ []) (length pre)
            = parseString_loop (?p @ ?b @ []) (length ?p) []"
      by (simp add: parseString_open)
    also have "\<dots> = parseString_loop (?p @ ?b @ []) (length ?p + length ?b)
                        ([] @ map item_value items)"
      by (rule parseString_loop_items [OF assms])
    also have "\<dots> = Inl (Error ''Unterminated string literal in AppleScript result'')"
      by (subst parseString_loop.simps) simp
    finally show ?thesis by simp
  qed
  have 3: "parseString (pre @ CHR 0x22 # ?b @ [CHR 0x5C]) (length pre)
           = Inl (Error ''Unexpected end of AppleScript result'')"
  proof -
    have "parseString (pre @ CHR 0x22 # ?b @ [CHR 0x5C]) (length pre)
            = parseString_loop (?p @ ?b @ [CHR 0x5C]) (length ?p) []"
      by (simp add: parseString_open)
    also have "\<dots> = parseString_loop (?p @ ?b @ [CHR 0x5C]) (length ?p + length ?b)
                        ([] @ map item_value items)"
      by (rule parseString_loop_items [OF assms])
    also have "\<dots> = Inl (Error ''Unexpected end of AppleScript result'')"
      using nth_append_at [of "?p @ ?b" "CHR 0x5C" "[]"]
      by (subst parseString_loop.simps) (simp del: append_assoc add: append_assoc [symmetric])
    finally show ?thesis .
  qed
  have 4: "c \<notin> {CHR 0x22, CHR 0x5C, CHR ''n'', CHR ''r'', CHR ''t''} \<longrightarrow> item_value (Escaped c) = c"
    by (simp add: unescape_def)
  show ?thesis
    using 1 2 3 4 body_cases [of s] by (simp add: unescape_def)
qed

theorem parseString_escapes_witness:
  "parseString (''x = '' @ CHR 0x22 # body_text [Plain (CHR ''a''), Escaped (CHR ''n''), Escaped (CHR 0x22), Escaped (CHR ''q'')]
                 @ CHR 0x22 # '' rest'') (length ''x = '')
     = Inr ([CHR ''a'', CHR 0x0A, CHR 0x22, CHR ''q''], 13)"
proof -
  have ok: "list_all item_ok [Plain (CHR ''a''), Escaped (CHR ''n''), Escaped (CHR 0x22), Escaped (CHR ''q'')]"
    by simp
  have q: "CHR ''q'' \<notin> {CHR 0x22, CHR 0x5C, CHR ''n'', CHR ''r'', CHR ''t''}" by simp
  from parseString_escapes [OF ok, of "''x = ''" "'' rest''" "CHR ''q''"] q
  show ?thesis by (simp add: body_text_def unescape_def)
qed

subsection \<open>The collection classifier\<close>

lemma not_white [simp]:
  "\<not> isWhitespaceChar (CHR 0x22)" "\<not> isWhitespaceChar (CHR ''{'')" "\<not> isWhitespaceChar (CHR ''}'')"
  "\<not> isWhitespaceChar (CHR '':'')" "\<not> isWhitespaceChar (CHR '','')"
  by (simp_all add: isWhitespaceChar_def)

lemma skipString_loop_items:
  "list_all item_ok items \<Longrightarrow>
     skipString_loop (pre @ body_text items @ tail) (length pre)
       = skipString_loop (pre @ body_text items @ tail) (length pre + length (body_text items))"
proof (induction items arbitrary: pre)
  case Nil
  show ?case by (simp add: body_text_def)
next
  case (Cons item items)
  then have ok: "list_all item_ok items" by simp
  show ?case
  proof (cases item)
    case (Plain c)
    with Cons.prems have c: "c \<noteq> CHR 0x22" "c \<noteq> CHR 0x5C" by simp_all
    let ?input = "(pre @ [c]) @ body_text items @ tail"
    have "skipString_loop ?input (length pre) = skipString_loop ?input (length (pre @ [c]))"
      using c by (subst skipString_loop.simps) (simp add: nth_append)
    also have "\<dots> = skipString_loop ?input (length (pre @ [c]) + length (body_text items))"
      by (rule Cons.IH [OF ok])
    finally show ?thesis using Plain by (simp add: body_text_def)
  next
    case (Escaped c)
    let ?input = "(pre @ [CHR 0x5C, c]) @ body_text items @ tail"
    have "skipString_loop ?input (length pre) = skipString_loop ?input (length (pre @ [CHR 0x5C, c]))"
      by (subst skipString_loop.simps) (simp add: nth_append)
    also have "\<dots> = skipString_loop ?input (length (pre @ [CHR 0x5C, c]) + length (body_text items))"
      by (rule Cons.IH [OF ok])
    finally show ?thesis using Escaped by (simp add: body_text_def)
  qed
qed

lemma skipStringFrom_literal:
  assumes "list_all item_ok items"
  shows "skipStringFrom (pre @ CHR 0x22 # body_text items @ CHR 0x22 # rest) (length pre)
           = Inr (length pre + length (body_text items) + 2)"
proof -
  let ?p = "pre @ [CHR 0x22]"
  let ?b = "body_text items"
  have "skipStringFrom (pre @ CHR 0x22 # ?b @ CHR 0x22 # rest) (length pre)
          = skipString_loop (?p @ ?b @ CHR 0x22 # rest) (length ?p)"
    by (simp add: skipStringFrom_def)
  also have "\<dots> = skipString_loop (?p @ ?b @ CHR 0x22 # rest) (length ?p + length ?b)"
    by (rule skipString_loop_items [OF assms])
  also have "\<dots> = Inr (length pre + length ?b + 2)"
    using nth_append_at [of "?p @ ?b" "CHR 0x22" rest]
    by (subst skipString_loop.simps) (simp del: append_assoc add: append_assoc [symmetric])
  finally show ?thesis .
qed

lemma skipString_loop_Inr:
  "skipString_loop input i = Inr p \<Longrightarrow>
     \<exists>items. list_all item_ok items \<and> drop i input = body_text items @ CHR 0x22 # drop p input"
proof (induction "length input - i" arbitrary: i rule: less_induct)
  case less
  from less.prems have lt: "i < length input"
    by (subst (asm) skipString_loop.simps) (simp split: if_splits)
  then have d: "drop i input = input ! i # drop (Suc i) input"
    by (simp add: Cons_nth_drop_Suc)
  show ?case
  proof (cases "input ! i = CHR 0x5C")
    case True
    with less.prems lt have r: "skipString_loop input (i + 2) = Inr p"
      by (subst (asm) skipString_loop.simps) simp
    from skipString_loop_advances [OF r] have lt2: "Suc i < length input" by simp
    then have d2: "drop (Suc i) input = input ! Suc i # drop (i + 2) input"
      by (simp add: Cons_nth_drop_Suc)
    from lt have m: "length input - (i + 2) < length input - i" by simp
    from less.hyps [OF m r] obtain items where
      "list_all item_ok items" "drop (i + 2) input = body_text items @ CHR 0x22 # drop p input"
      by blast
    with d d2 True show ?thesis
      by (intro exI [of _ "Escaped (input ! Suc i) # items"]) (simp add: body_text_def)
  next
    case False
    show ?thesis
    proof (cases "input ! i = CHR 0x22")
      case True
      with less.prems lt False have "p = i + 1"
        by (subst (asm) skipString_loop.simps) simp
      with d True show ?thesis
        by (intro exI [of _ "[]"]) (simp add: body_text_def)
    next
      case q: False
      with less.prems lt False have r: "skipString_loop input (i + 1) = Inr p"
        by (subst (asm) skipString_loop.simps) simp
      from lt have m: "length input - (i + 1) < length input - i" by simp
      from less.hyps [OF m r] obtain items where
        "list_all item_ok items" "drop (i + 1) input = body_text items @ CHR 0x22 # drop p input"
        by blast
      with d False q show ?thesis
        by (intro exI [of _ "Plain (input ! i) # items"]) (simp add: body_text_def)
    qed
  qed
qed

lemma loop_skipped:
  "skipped d s d' \<Longrightarrow>
     isRecordCollection_loop (pre @ s @ tail) d (length pre)
       = isRecordCollection_loop (pre @ s @ tail) d' (length pre + length s)"
proof (induction arbitrary: pre rule: skipped.induct)
  case (Done d)
  show ?case by simp
next
  case (White c d s d')
  let ?input = "(pre @ [c]) @ s @ tail"
  have "isRecordCollection_loop ?input d (length pre) = isRecordCollection_loop ?input d (length (pre @ [c]))"
    using White.hyps(1) by (subst isRecordCollection_loop.simps) (simp add: nth_append)
  also have "\<dots> = isRecordCollection_loop ?input d' (length (pre @ [c]) + length s)"
    by (rule White.IH)
  finally show ?case by simp
next
  case (Literal items d s d')
  let ?lit = "CHR 0x22 # body_text items @ [CHR 0x22]"
  let ?input = "(pre @ ?lit) @ s @ tail"
  have sk: "skipStringFrom ?input (length pre) = Inr (length (pre @ ?lit))"
    using skipStringFrom_literal [OF Literal.hyps(1), of pre "s @ tail"] by simp
  have "isRecordCollection_loop ?input d (length pre) = isRecordCollection_loop ?input d (length (pre @ ?lit))"
    using sk by (subst isRecordCollection_loop.simps) (simp add: nth_append Let_def)
  also have "\<dots> = isRecordCollection_loop ?input d' (length (pre @ ?lit) + length s)"
    by (rule Literal.IH)
  finally show ?case by (simp add: ac_simps)
next
  case (Open d s d')
  let ?input = "(pre @ [CHR ''{'']) @ s @ tail"
  have "isRecordCollection_loop ?input d (length pre)
          = isRecordCollection_loop ?input (Suc d) (length (pre @ [CHR ''{'']))"
    by (subst isRecordCollection_loop.simps) (simp add: nth_append)
  also have "\<dots> = isRecordCollection_loop ?input d' (length (pre @ [CHR ''{'']) + length s)"
    by (rule Open.IH)
  finally show ?case by simp
next
  case (Close d s d')
  let ?input = "(pre @ [CHR ''}'']) @ s @ tail"
  have "isRecordCollection_loop ?input (Suc d) (length pre)
          = isRecordCollection_loop ?input d (length (pre @ [CHR ''}'']))"
    by (subst isRecordCollection_loop.simps) (simp add: nth_append)
  also have "\<dots> = isRecordCollection_loop ?input d' (length (pre @ [CHR ''}'']) + length s)"
    by (rule Close.IH)
  finally show ?case by simp
next
  case (Other c d s d')
  let ?input = "(pre @ [c]) @ s @ tail"
  have "isRecordCollection_loop ?input d (length pre) = isRecordCollection_loop ?input d (length (pre @ [c]))"
    using Other.hyps by (subst isRecordCollection_loop.simps) (auto simp: nth_append)
  also have "\<dots> = isRecordCollection_loop ?input d' (length (pre @ [c]) + length s)"
    by (rule Other.IH)
  finally show ?case by simp
qed

lemma loop_decides:
  assumes "skipped d pre 0"
  shows "isRecordCollection_loop (pfx @ pre @ CHR '':'' # rest) d (length pfx) = Inr True"
    and "isRecordCollection_loop (pfx @ pre @ CHR '','' # rest) d (length pfx) = Inr False"
    and "isRecordCollection_loop (pfx @ pre @ CHR ''}'' # rest) d (length pfx) = Inr False"
proof -
  have at: "((pfx @ pre) @ c # rest) ! (length pfx + length pre) = c" for c
    using nth_append_at [of "pfx @ pre" c rest] by simp
  show "isRecordCollection_loop (pfx @ pre @ CHR '':'' # rest) d (length pfx) = Inr True"
    unfolding loop_skipped [OF assms, of pfx "CHR '':'' # rest"]
    using at [of "CHR '':''"] by (subst isRecordCollection_loop.simps) simp
  show "isRecordCollection_loop (pfx @ pre @ CHR '','' # rest) d (length pfx) = Inr False"
    unfolding loop_skipped [OF assms, of pfx "CHR '','' # rest"]
    using at [of "CHR '',''"] by (subst isRecordCollection_loop.simps) simp
  show "isRecordCollection_loop (pfx @ pre @ CHR ''}'' # rest) d (length pfx) = Inr False"
    unfolding loop_skipped [OF assms, of pfx "CHR ''}'' # rest"]
    using at [of "CHR ''}''"] by (subst isRecordCollection_loop.simps) simp
qed

lemma loop_exhausted:
  assumes "skipped d s d'"
  shows "isRecordCollection_loop (pfx @ s) d (length pfx) = Inr False"
proof -
  have "isRecordCollection_loop (pfx @ s @ []) d (length pfx)
          = isRecordCollection_loop (pfx @ s @ []) d' (length pfx + length s)"
    by (rule loop_skipped [OF assms])
  also have "\<dots> = Inr False"
    by (subst isRecordCollection_loop.simps) simp
  finally show ?thesis by simp
qed


lemma loop_True:
  "isRecordCollection_loop input d p = Inr True \<Longrightarrow>
     \<exists>pre rest. drop p input = pre @ CHR '':'' # rest \<and> skipped d pre 0"
proof (induction "length input - p" arbitrary: p d rule: less_induct)
  case less
  from less.prems have lt: "p < length input"
    by (subst (asm) isRecordCollection_loop.simps) (simp split: if_splits)
  then have dr: "drop p input = input ! p # drop (Suc p) input"
    by (simp add: Cons_nth_drop_Suc)
  from lt have m: "length input - (p + 1) < length input - p" by simp
  let ?c = "input ! p"
  consider (blank) "isWhitespaceChar ?c"
    | (strlit) "\<not> isWhitespaceChar ?c" "?c = CHR 0x22"
    | (lbrace) "\<not> isWhitespaceChar ?c" "?c = CHR ''{''"
    | (rbrace) "\<not> isWhitespaceChar ?c" "?c = CHR ''}''"
    | (plain) "\<not> isWhitespaceChar ?c" "?c \<noteq> CHR 0x22" "?c \<noteq> CHR ''{''" "?c \<noteq> CHR ''}''"
    by blast
  then show ?case
  proof cases
    case blank
    with less.prems lt have "isRecordCollection_loop input d (p + 1) = Inr True"
      by (subst (asm) isRecordCollection_loop.simps) simp
    from less.hyps [OF m this] obtain pre rest where
      "drop (p + 1) input = pre @ CHR '':'' # rest" "skipped d pre 0" by blast
    with dr blank show ?thesis
      by (intro exI [of _ "?c # pre"] exI [of _ rest]) (simp add: skipped.White)
  next
    case strlit
    with less.prems lt obtain q where sk: "skipStringFrom input p = Inr q"
      and r: "isRecordCollection_loop input d q = Inr True"
      by (subst (asm) isRecordCollection_loop.simps) (auto simp: Let_def split: sum.splits)
    from sk have sl: "skipString_loop input (p + 1) = Inr q" by (simp add: skipStringFrom_def)
    from skipString_loop_advances [OF sl] lt have mq: "length input - q < length input - p" by arith
    from skipString_loop_Inr [OF sl] obtain items where
      i: "list_all item_ok items" "drop (p + 1) input = body_text items @ CHR 0x22 # drop q input"
      by blast
    from less.hyps [OF mq r] obtain pre rest where
      "drop q input = pre @ CHR '':'' # rest" "skipped d pre 0" by blast
    with dr strlit i show ?thesis
      by (intro exI [of _ "CHR 0x22 # body_text items @ CHR 0x22 # pre"] exI [of _ rest])
         (simp add: skipped.Literal)
  next
    case lbrace
    with less.prems lt have "isRecordCollection_loop input (Suc d) (p + 1) = Inr True"
      by (subst (asm) isRecordCollection_loop.simps) simp
    from less.hyps [OF m this] obtain pre rest where
      "drop (p + 1) input = pre @ CHR '':'' # rest" "skipped (Suc d) pre 0" by blast
    with dr lbrace show ?thesis
      by (intro exI [of _ "?c # pre"] exI [of _ rest]) (simp add: skipped.Open)
  next
    case rbrace
    with less.prems lt have d: "d \<noteq> 0" and "isRecordCollection_loop input (d - 1) (p + 1) = Inr True"
      by (subst (asm) isRecordCollection_loop.simps, simp split: if_splits)+
    from less.hyps [OF m this(2)] obtain pre rest where
      "drop (p + 1) input = pre @ CHR '':'' # rest" "skipped (d - 1) pre 0" by blast
    moreover from d obtain d0 where "d = Suc d0" by (cases d) auto
    ultimately show ?thesis using dr rbrace
      by (intro exI [of _ "?c # pre"] exI [of _ rest]) (simp add: skipped.Close)
  next
    case plain
    show ?thesis
    proof (cases "d = 0 \<and> (?c = CHR '':'' \<or> ?c = CHR '','')")
      case True
      with less.prems lt plain have "?c = CHR '':''"
        by (subst (asm) isRecordCollection_loop.simps) (auto split: if_splits)
      with dr True show ?thesis
        by (intro exI [of _ "[]"] exI [of _ "drop (Suc p) input"]) (simp add: skipped.Done)
    next
      case False
      with less.prems lt plain have "isRecordCollection_loop input d (p + 1) = Inr True"
        by (subst (asm) isRecordCollection_loop.simps) (auto split: if_splits)
      from less.hyps [OF m this] obtain pre rest where
        "drop (p + 1) input = pre @ CHR '':'' # rest" "skipped d pre 0" by blast
      with dr plain False show ?thesis
        by (intro exI [of _ "?c # pre"] exI [of _ rest]) (auto intro: skipped.Other)
    qed
  qed
qed

lemma loop_False:
  "isRecordCollection_loop input d p = Inr False \<Longrightarrow>
     (\<exists>d'. skipped d (drop p input) d')
     \<or> (\<exists>pre c rest. drop p input = pre @ c # rest \<and> skipped d pre 0
           \<and> (c = CHR '','' \<or> c = CHR ''}''))"
proof (induction "length input - p" arbitrary: p d rule: less_induct)
  case less
  show ?case
  proof (cases "p < length input")
    case False
    then have "drop p input = []" by simp
    then show ?thesis by (auto intro: skipped.Done)
  next
    case lt: True
    then have dr: "drop p input = input ! p # drop (Suc p) input"
      by (simp add: Cons_nth_drop_Suc)
    from lt have m: "length input - (p + 1) < length input - p" by simp
    let ?c = "input ! p"
    have step: "(\<exists>d'. skipped d (drop p input) d')
        \<or> (\<exists>pre c rest. drop p input = pre @ c # rest \<and> skipped d pre 0
              \<and> (c = CHR '','' \<or> c = CHR ''}''))"
      if r: "isRecordCollection_loop input e q = Inr False"
        and mq: "length input - q < length input - p"
        and front: "\<And>s d'. skipped e s d' \<Longrightarrow> skipped d (front @ s) d'"
        and split: "drop p input = front @ drop q input"
      for e q front
    proof -
      from less.hyps [OF mq r] consider
        (exhausted) d' where "skipped e (drop q input) d'"
        | (decided) pre c rest where "drop q input = pre @ c # rest" "skipped e pre 0"
            "c = CHR '','' \<or> c = CHR ''}''"
        by blast
      then show ?thesis
      proof cases
        case exhausted
        with front split show ?thesis by auto
      next
        case decided
        with front [of pre 0] split have
          "drop p input = (front @ pre) @ c # rest \<and> skipped d (front @ pre) 0
             \<and> (c = CHR '','' \<or> c = CHR ''}'')" by simp
        then show ?thesis by blast
      qed
    qed
    consider (blank) "isWhitespaceChar ?c"
      | (strlit) "\<not> isWhitespaceChar ?c" "?c = CHR 0x22"
      | (lbrace) "\<not> isWhitespaceChar ?c" "?c = CHR ''{''"
      | (rbrace) "\<not> isWhitespaceChar ?c" "?c = CHR ''}''"
      | (plain) "\<not> isWhitespaceChar ?c" "?c \<noteq> CHR 0x22" "?c \<noteq> CHR ''{''" "?c \<noteq> CHR ''}''"
      by blast
    then show ?thesis
    proof cases
      case blank
      with less.prems lt have r: "isRecordCollection_loop input d (p + 1) = Inr False"
        by (subst (asm) isRecordCollection_loop.simps) simp
      show ?thesis
        by (rule step [OF r m, where front = "[?c]"]) (simp_all add: dr blank skipped.White)
    next
      case strlit
      with less.prems lt obtain q where sk: "skipStringFrom input p = Inr q"
        and r: "isRecordCollection_loop input d q = Inr False"
        by (subst (asm) isRecordCollection_loop.simps) (auto simp: Let_def split: sum.splits)
      from sk have sl: "skipString_loop input (p + 1) = Inr q" by (simp add: skipStringFrom_def)
      from skipString_loop_advances [OF sl] lt have mq: "length input - q < length input - p" by arith
      from skipString_loop_Inr [OF sl] obtain items where
        i: "list_all item_ok items" "drop (p + 1) input = body_text items @ CHR 0x22 # drop q input"
        by blast
      show ?thesis
        by (rule step [OF r mq, where front = "CHR 0x22 # body_text items @ [CHR 0x22]"])
           (use i dr strlit in \<open>simp_all add: skipped.Literal\<close>)
    next
      case lbrace
      with less.prems lt have r: "isRecordCollection_loop input (Suc d) (p + 1) = Inr False"
        by (subst (asm) isRecordCollection_loop.simps) simp
      show ?thesis
        by (rule step [OF r m, where front = "[?c]"]) (simp_all add: dr lbrace skipped.Open)
    next
      case rbrace
      show ?thesis
      proof (cases d)
        case 0
        have "drop p input = [] @ ?c # drop (Suc p) input \<and> skipped d [] 0
                \<and> (?c = CHR '','' \<or> ?c = CHR ''}'')"
          using dr rbrace 0 by (simp add: skipped.Done)
        then show ?thesis by blast
      next
        case (Suc d0)
        with rbrace less.prems lt have r: "isRecordCollection_loop input d0 (p + 1) = Inr False"
          by (subst (asm) isRecordCollection_loop.simps) simp
        show ?thesis
          by (rule step [OF r m, where front = "[?c]"]) (simp_all add: dr rbrace Suc skipped.Close)
      qed
    next
      case plain
      show ?thesis
      proof (cases "d = 0 \<and> (?c = CHR '':'' \<or> ?c = CHR '','')")
        case True
        with less.prems lt plain have "?c = CHR '',''"
          by (subst (asm) isRecordCollection_loop.simps) (auto split: if_splits)
        with True have "drop p input = [] @ ?c # drop (Suc p) input \<and> skipped d [] 0
                \<and> (?c = CHR '','' \<or> ?c = CHR ''}'')"
          using dr by (simp add: skipped.Done)
        then show ?thesis by blast
      next
        case False
        with less.prems lt plain have r: "isRecordCollection_loop input d (p + 1) = Inr False"
          by (subst (asm) isRecordCollection_loop.simps) (auto split: if_splits)
        show ?thesis
          by (rule step [OF r m, where front = "[?c]"]) (use dr plain False in \<open>auto intro: skipped.Other\<close>)
      qed
    qed
  qed
qed

lemma advanceWhile_run:
  "list_all p w \<Longrightarrow> (tail = [] \<or> \<not> p (hd tail)) \<Longrightarrow>
     advanceWhile p (pre @ w @ tail) (length pre) = length pre + length w"
proof (induction w arbitrary: pre)
  case Nil
  then show ?case
    by (subst advanceWhile.simps) (cases tail, auto simp: nth_append)
next
  case (Cons c w)
  have "advanceWhile p ((pre @ [c]) @ w @ tail) (length pre)
          = advanceWhile p ((pre @ [c]) @ w @ tail) (length (pre @ [c]))"
    using Cons.prems(1) by (subst advanceWhile.simps) (simp add: nth_append)
  also have "\<dots> = length (pre @ [c]) + length w"
    using Cons.prems by (intro Cons.IH) simp_all
  finally show ?case by simp
qed

lemma advanceWhile_passed:
  "j \<le> k \<Longrightarrow> k < advanceWhile p input j \<Longrightarrow> k < length input \<and> p (input ! k)"
proof (induction p input j rule: advanceWhile.induct)
  case (1 p input index)
  show ?case
  proof (cases "index < length input \<and> p (input ! index)")
    case True
    then have eq: "advanceWhile p input index = advanceWhile p input (index + 1)"
      by (subst advanceWhile.simps) simp
    show ?thesis
    proof (cases "k = index")
      case True
      with \<open>index < length input \<and> p (input ! index)\<close> show ?thesis by simp
    next
      case False
      with "1.prems" eq "1.IH" [OF True] show ?thesis by simp
    qed
  next
    case False
    then have "advanceWhile p input index = index"
      by (subst advanceWhile.simps) auto
    with "1.prems" show ?thesis by simp
  qed
qed

lemma advanceWhile_stops:
  "advanceWhile p input j < length input \<Longrightarrow> \<not> p (input ! advanceWhile p input j)"
proof (induction p input j rule: advanceWhile.induct)
  case (1 p input index)
  show ?case
  proof (cases "index < length input \<and> p (input ! index)")
    case True
    then have eq: "advanceWhile p input index = advanceWhile p input (index + 1)"
      by (subst advanceWhile.simps) simp
    with "1.prems" "1.IH" [OF True] show ?thesis by simp
  next
    case False
    then have "advanceWhile p input index = index"
      by (subst advanceWhile.simps) auto
    with "1.prems" False show ?thesis by simp
  qed
qed

lemma skipWhitespace_finds:
  "skipWhitespace input j < length input
     \<longleftrightarrow> (\<exists>k. j \<le> k \<and> k < length input \<and> \<not> isWhitespaceChar (input ! k))"
proof
  assume "skipWhitespace input j < length input"
  then show "\<exists>k. j \<le> k \<and> k < length input \<and> \<not> isWhitespaceChar (input ! k)"
    using advanceWhile_stops [of isWhitespaceChar input j] skipWhitespace_ge [of j input]
    by (intro exI [of _ "skipWhitespace input j"]) (simp add: skipWhitespace_def)
next
  assume "\<exists>k. j \<le> k \<and> k < length input \<and> \<not> isWhitespaceChar (input ! k)"
  then obtain k where k: "j \<le> k" "k < length input" "\<not> isWhitespaceChar (input ! k)" by blast
  show "skipWhitespace input j < length input"
  proof (rule ccontr)
    assume "\<not> skipWhitespace input j < length input"
    with k have "k < advanceWhile isWhitespaceChar input j" by (simp add: skipWhitespace_def)
    from advanceWhile_passed [OF k(1) this] k(3) show False by simp
  qed
qed

text \<open>
  C1. The classifier, started on the cursor \<open>i\<close> after the opening brace, answers
  \<^emph>\<open>record\<close> exactly when the text from the cursor is a skipped part (white space, whole
  string literals with their escapes, nested brace groups, and other characters, with
  no colon, comma or closing brace of the collection itself at depth 0) followed by a
  colon; it answers \<^emph>\<open>list\<close> exactly when the skipped part is followed by a comma or by
  the closing brace, or runs to the end of the input. The answer decides the shape of
  the value \<^verbatim>\<open>parseCollection\<close> returns. An opening brace followed, after optional white
  space, by a closing brace is the empty list, whatever follows it: the classifier's
  answer (or its error) on the rest does not matter.
\<close>

theorem isRecordCollection_classifies:
  "(isRecordCollection input i = Inr True \<longleftrightarrow>
      (\<exists>pre rest. drop i input = pre @ CHR '':'' # rest \<and> skipped 0 pre 0))
   \<and> (isRecordCollection input i = Inr False \<longleftrightarrow>
        (\<exists>pre c rest. drop i input = pre @ c # rest \<and> skipped 0 pre 0
            \<and> (c = CHR '','' \<or> c = CHR ''}''))
        \<or> (\<exists>d. skipped 0 (drop i input) d))
   \<and> (peek input i = Some (CHR ''{'') \<and> peek input (skipWhitespace input (i + 1)) \<noteq> Some (CHR ''}'')
        \<and> parseCollection input i = Inr (v, k) \<longrightarrow>
          (isRecordCollection input (skipWhitespace input (i + 1)) = Inr True \<and> (\<exists>r. v = VRec r))
          \<or> (isRecordCollection input (skipWhitespace input (i + 1)) = Inr False \<and> (\<exists>xs. v = VList xs)))
   \<and> (list_all isWhitespaceChar w \<longrightarrow>
        parseCollection (pfx @ CHR ''{'' # w @ CHR ''}'' # tail) (length pfx)
          = Inr (VList [], length pfx + length w + 2))
   \<and> parse ''{}'' = Inr (VList [])"
proof -
  have split: "input = take i input @ drop i input" "length (take i input) = i" if "i \<le> length input"
    using that by simp_all
  have 1: "isRecordCollection input i = Inr True \<longleftrightarrow>
      (\<exists>pre rest. drop i input = pre @ CHR '':'' # rest \<and> skipped 0 pre 0)"
  proof
    assume "isRecordCollection input i = Inr True"
    then show "\<exists>pre rest. drop i input = pre @ CHR '':'' # rest \<and> skipped 0 pre 0"
      unfolding isRecordCollection_def by (rule loop_True)
  next
    assume "\<exists>pre rest. drop i input = pre @ CHR '':'' # rest \<and> skipped 0 pre 0"
    then obtain pre rest where d: "drop i input = pre @ CHR '':'' # rest" and s: "skipped 0 pre 0"
      by blast
    from d have "i \<le> length input" by (cases "i \<le> length input") auto
    from split [OF this] d loop_decides(1) [OF s, of "take i input" rest]
    show "isRecordCollection input i = Inr True"
      by (simp add: isRecordCollection_def)
  qed
  have 2: "isRecordCollection input i = Inr False \<longleftrightarrow>
        (\<exists>pre c rest. drop i input = pre @ c # rest \<and> skipped 0 pre 0
            \<and> (c = CHR '','' \<or> c = CHR ''}''))
        \<or> (\<exists>d. skipped 0 (drop i input) d)"
  proof
    assume "isRecordCollection input i = Inr False"
    then show "(\<exists>pre c rest. drop i input = pre @ c # rest \<and> skipped 0 pre 0
            \<and> (c = CHR '','' \<or> c = CHR ''}''))
        \<or> (\<exists>d. skipped 0 (drop i input) d)"
      unfolding isRecordCollection_def using loop_False [of input 0 i] by blast
  next
    assume a: "(\<exists>pre c rest. drop i input = pre @ c # rest \<and> skipped 0 pre 0
            \<and> (c = CHR '','' \<or> c = CHR ''}''))
        \<or> (\<exists>d. skipped 0 (drop i input) d)"
    show "isRecordCollection input i = Inr False"
    proof (cases "i \<le> length input")
      case False
      then show ?thesis
        unfolding isRecordCollection_def by (subst isRecordCollection_loop.simps) simp
    next
      case True
      note sp = split [OF True]
      from a consider
        (decided) pre c rest where "drop i input = pre @ c # rest" "skipped 0 pre 0"
          "c = CHR '','' \<or> c = CHR ''}''"
        | (exhausted) d where "skipped 0 (drop i input) d"
        by blast
      then show ?thesis
      proof cases
        case decided
        with sp loop_decides(2,3) [OF decided(2), of "take i input" rest]
        show ?thesis by (auto simp: isRecordCollection_def)
      next
        case exhausted
        with sp loop_exhausted [OF exhausted, of "take i input"]
        show ?thesis by (simp add: isRecordCollection_def)
      qed
    qed
  qed
  have 3: "peek input i = Some (CHR ''{'') \<and> peek input (skipWhitespace input (i + 1)) \<noteq> Some (CHR ''}'')
        \<and> parseCollection input i = Inr (v, k) \<longrightarrow>
          (isRecordCollection input (skipWhitespace input (i + 1)) = Inr True \<and> (\<exists>r. v = VRec r))
          \<or> (isRecordCollection input (skipWhitespace input (i + 1)) = Inr False \<and> (\<exists>xs. v = VList xs))"
  proof (intro impI, elim conjE)
    let ?j = "skipWhitespace input (i + 1)"
    assume a: "peek input i = Some (CHR ''{'')" and b: "peek input ?j \<noteq> Some (CHR ''}'')"
      and c: "parseCollection input i = Inr (v, k)"
    from a have cons: "consume input i (Some (CHR ''{'')) = Inr (CHR ''{'', i + 1)"
      by (simp add: peek_Some consume_def)
    from c have "(case isRecordCollection input ?j of
                Inl err \<Rightarrow> Inl err
              | Inr isRecord \<Rightarrow>
                  if isRecord then
                    (case parseRecordEntries input ?j [] of
                       Inl err \<Rightarrow> Inl err
                     | Inr (result, k) \<Rightarrow>
                         (case consume input (skipWhitespace input k) (Some (CHR ''}'')) of
                            Inl err \<Rightarrow> Inl err
                          | Inr (c, l) \<Rightarrow> Inr (VRec result, l)))
                  else
                    (case parseListItems input ?j [] of
                       Inl err \<Rightarrow> Inl err
                     | Inr (list, k) \<Rightarrow>
                         (case consume input (skipWhitespace input k) (Some (CHR ''}'')) of
                            Inl err \<Rightarrow> Inl err
                          | Inr (c, l) \<Rightarrow> Inr (VList list, l)))) = Inr (v, k)"
      by (subst (asm) parseCollection.simps) (simp only: cons b sum.case prod.case Let_def if_False)
    then show "(isRecordCollection input ?j = Inr True \<and> (\<exists>r. v = VRec r))
          \<or> (isRecordCollection input ?j = Inr False \<and> (\<exists>xs. v = VList xs))"
      by (cases "isRecordCollection input ?j") (auto split: sum.splits if_splits)
  qed
  have 4: "list_all isWhitespaceChar w \<longrightarrow>
        parseCollection (pfx @ CHR ''{'' # w @ CHR ''}'' # tail) (length pfx)
          = Inr (VList [], length pfx + length w + 2)"
  proof
    assume w: "list_all isWhitespaceChar w"
    let ?input = "pfx @ CHR ''{'' # w @ CHR ''}'' # tail"
    have c: "consume ?input (length pfx) (Some (CHR ''{'')) = Inr (CHR ''{'', length pfx + 1)"
      by (simp add: consume_def)
    have "advanceWhile isWhitespaceChar ((pfx @ [CHR ''{'']) @ w @ CHR ''}'' # tail)
            (length (pfx @ [CHR ''{''])) = length (pfx @ [CHR ''{'']) + length w"
      using w by (intro advanceWhile_run) simp_all
    then have sw: "skipWhitespace ?input (length pfx + 1) = length pfx + length w + 1"
      by (simp add: skipWhitespace_def)
    have at: "?input ! (length pfx + length w + 1) = CHR ''}''"
      using nth_append_at [of "pfx @ CHR ''{'' # w" "CHR ''}''" tail] by simp
    then have p: "peek ?input (length pfx + length w + 1) = Some (CHR ''}'')"
      by (simp add: peek_def)
    have c2: "consume ?input (length pfx + length w + 1) (Some (CHR ''}''))
                = Inr (CHR ''}'', length pfx + length w + 2)"
      using at by (simp add: consume_def)
    show "parseCollection ?input (length pfx) = Inr (VList [], length pfx + length w + 2)"
      by (subst parseCollection.simps) (simp only: c sw p c2 sum.case prod.case Let_def if_True simp_thms)
  qed
  have 5: "parse ''{}'' = Inr (VList [])"
    by code_simp
  show ?thesis using 1 2 3 4 5 by blast
qed

theorem isRecordCollection_classifies_witness:
  "isRecordCollection ''{ a : 1, b : 2}'' 1 = Inr True
   \<and> parseCollection ''{ a : 1, b : 2}'' 0
       = Inr (VRec [(''a'', VNum (Finite 1 0)), (''b'', VNum (Finite 2 0))], 15)
   \<and> parseCollection (''x'' @ CHR ''{'' # '' '' @ CHR ''}'' # '': 1'') (length ''x'') = Inr (VList [], 4)"
proof -
  have a: "peek ''{ a : 1, b : 2}'' 0 = Some (CHR ''{'')
           \<and> peek ''{ a : 1, b : 2}'' (skipWhitespace ''{ a : 1, b : 2}'' (0 + 1)) \<noteq> Some (CHR ''}'')
           \<and> parseCollection ''{ a : 1, b : 2}'' 0
               = Inr (VRec [(''a'', VNum (Finite 1 0)), (''b'', VNum (Finite 2 0))], 15)"
    by code_simp
  have s: "skipWhitespace ''{ a : 1, b : 2}'' (0 + 1) = 2" by code_simp
  have w: "list_all isWhitespaceChar '' ''" by code_simp
  have n: "isRecordCollection ''{ a : 1, b : 2}'' 2 = Inr True" by code_simp
  have t: "isRecordCollection ''{ a : 1, b : 2}'' 1 = Inr True" by code_simp
  from isRecordCollection_classifies
         [of "''{ a : 1, b : 2}''" 0 "VRec [(''a'', VNum (Finite 1 0)), (''b'', VNum (Finite 2 0))]" 15
             "'' ''" "''x''" "'': 1''"] a w
  have "parseCollection (''x'' @ CHR ''{'' # '' '' @ CHR ''}'' # '': 1'') (length ''x'')
          = Inr (VList [], length ''x'' + length '' '' + 2)"
    by blast
  with a t show ?thesis by simp
qed

subsection \<open>The top level\<close>

lemma dropWhile_all: "list_all p w \<Longrightarrow> dropWhile p (w @ s) = dropWhile p s"
  by (induction w) simp_all

lemma trimEnd_commute:
  "dropWhile p (rev (dropWhile p (rev x))) = rev (dropWhile p (rev (dropWhile p x)))"
proof (induction x)
  case Nil
  show ?case by simp
next
  case (Cons a x)
  show ?case
  proof (cases "p a")
    case True
    show ?thesis
    proof (cases "\<forall>y \<in> set x. p y")
      case all: True
      with True have l: "dropWhile p (rev (a # x)) = []" and r: "dropWhile p (a # x) = []"
        by simp_all
      show ?thesis unfolding l r by simp
    next
      case False
      then have "dropWhile p (rev x @ [a]) = dropWhile p (rev x) @ [a]"
        by (simp add: dropWhile_append)
      with True Cons.IH show ?thesis by simp
    qed
  next
    case False
    then have "dropWhile p (rev x @ [a]) = dropWhile p (rev x) @ [a]"
      by (auto simp: dropWhile_append)
    with False show ?thesis by simp
  qed
qed

lemma trim_prefixed:
  assumes "list_all isWhitespaceChar w0" and "list_all isWhitespaceChar w"
  shows "trim (w0 @ ''=>'' @ w @ s) = ''=>'' @ rev (dropWhile isWhitespaceChar (rev (w @ s)))"
proof -
  have e: "\<not> isWhitespaceChar (CHR ''='')" by (simp add: isWhitespaceChar_def)
  have g: "\<not> isWhitespaceChar (CHR ''>'')" by (simp add: isWhitespaceChar_def)
  have "dropWhile isWhitespaceChar (w0 @ ''=>'' @ w @ s) = ''=>'' @ w @ s"
    using dropWhile_all [OF assms(1), of "''=>'' @ w @ s"] e by simp
  moreover have "dropWhile isWhitespaceChar (t @ [CHR ''>'', CHR ''=''])
                   = dropWhile isWhitespaceChar t @ [CHR ''>'', CHR ''='']" for t
  proof (cases "\<forall>x \<in> set t. isWhitespaceChar x")
    case True
    then have "dropWhile isWhitespaceChar t = []" by simp
    moreover have "dropWhile isWhitespaceChar (t @ [CHR ''>'', CHR ''='']) = [CHR ''>'', CHR ''='']"
      using True g by (simp add: dropWhile_append)
    ultimately show ?thesis by simp
  next
    case False
    then show ?thesis by (simp add: dropWhile_append)
  qed
  ultimately have "rev (dropWhile isWhitespaceChar (rev (dropWhile isWhitespaceChar (w0 @ ''=>'' @ w @ s))))
                     = ''=>'' @ rev (dropWhile isWhitespaceChar (rev (w @ s)))"
    by (simp del: rev_append)
  then show ?thesis by (simp only: trim_def)
qed

lemma stripPrefix_trim_prefixed:
  assumes "list_all isWhitespaceChar w0" and "list_all isWhitespaceChar w"
  shows "stripPrefix (trim (w0 @ ''=>'' @ w @ s)) = trim s"
proof -
  have "stripPrefix (trim (w0 @ ''=>'' @ w @ s))
          = dropWhile isWhitespaceChar (rev (dropWhile isWhitespaceChar (rev (w @ s))))"
    by (subst trim_prefixed [OF assms]) (simp add: stripPrefix_def)
  also have "\<dots> = rev (dropWhile isWhitespaceChar (rev (dropWhile isWhitespaceChar (w @ s))))"
    by (rule trimEnd_commute)
  also have "\<dots> = trim s"
    by (simp add: dropWhile_all [OF assms(2)] trim_def)
  finally show ?thesis .
qed

text \<open>
  C6. When \<^verbatim>\<open>parseValue\<close> has read the top-level value and left the cursor at \<open>j\<close>:
  if a character that is not white space remains at or after \<open>j\<close>, \<^verbatim>\<open>parse\<close> throws
  \<^verbatim>\<open>Unexpected trailing content\<close>; if only white space remains, \<^verbatim>\<open>parse\<close> returns the value.
  \<^verbatim>\<open>parseAppleScriptResult\<close> trims the text and removes one leading \<^verbatim>\<open>=>\<close> with the
  white space after it before it parses: a text with the prefix \<^verbatim>\<open>"=> "\<close> is parsed as
  the text without it, and a text without a prefix is parsed as it is.
\<close>

theorem parse_trailing_content:
  "(parseValue input (skipWhitespace input 0) = Inr (v, j)
      \<and> (\<exists>k. j \<le> k \<and> k < length input \<and> \<not> isWhitespaceChar (input ! k))
      \<longrightarrow> parse input = Inl (Error ''Unexpected trailing content in AppleScript result''))
   \<and> (parseValue input (skipWhitespace input 0) = Inr (v, j)
      \<and> (\<forall>k. j \<le> k \<and> k < length input \<longrightarrow> isWhitespaceChar (input ! k))
      \<longrightarrow> parse input = Inr v)
   \<and> (parseValue input (skipWhitespace input 0) = Inl err \<longrightarrow> parse input = Inl err)
   \<and> parseAppleScriptResult (VStr (''=> '' @ s)) = parse (trim s)
   \<and> (list_all isWhitespaceChar w0 \<and> list_all isWhitespaceChar w
        \<longrightarrow> parseAppleScriptResult (VStr (w0 @ ''=>'' @ w @ s)) = parse (trim s))
   \<and> (trim s \<noteq> [] \<and> take 2 (trim s) \<noteq> ''=>''
        \<longrightarrow> parseAppleScriptResult (VStr s) = parse (trim s))
   \<and> (trim s = [] \<longrightarrow> parseAppleScriptResult (VStr s) = Inr VNull)"
proof -
  have 1: "parseValue input (skipWhitespace input 0) = Inr (v, j)
      \<and> (\<exists>k. j \<le> k \<and> k < length input \<and> \<not> isWhitespaceChar (input ! k))
      \<longrightarrow> parse input = Inl (Error ''Unexpected trailing content in AppleScript result'')"
    using skipWhitespace_finds [of input j] by (auto simp: parse_def)
  have 2: "parseValue input (skipWhitespace input 0) = Inr (v, j)
      \<and> (\<forall>k. j \<le> k \<and> k < length input \<longrightarrow> isWhitespaceChar (input ! k))
      \<longrightarrow> parse input = Inr v"
    using skipWhitespace_finds [of input j] by (auto simp: parse_def)
  have 3: "parseValue input (skipWhitespace input 0) = Inl err \<longrightarrow> parse input = Inl err"
    by (simp add: parse_def)
  have pre: "parseAppleScriptResult (VStr (w0 @ ''=>'' @ w @ s)) = parse (trim s)"
    if w: "list_all isWhitespaceChar w0" "list_all isWhitespaceChar w" for w0 w
  proof -
    have "trim (w0 @ ''=>'' @ w @ s) \<noteq> []"
      by (subst trim_prefixed [OF w]) simp
    moreover note stripPrefix_trim_prefixed [OF w, of s]
    ultimately show ?thesis
      by (simp only: parseAppleScriptResult_def Let_def AppleScriptValue.case if_False)
  qed
  have sp: "list_all isWhitespaceChar '' ''" by (simp add: isWhitespaceChar_def)
  have 4: "parseAppleScriptResult (VStr (''=> '' @ s)) = parse (trim s)"
    using pre [of "[]" "'' ''"] sp by simp
  have 5: "trim s \<noteq> [] \<and> take 2 (trim s) \<noteq> ''=>''
        \<longrightarrow> parseAppleScriptResult (VStr s) = parse (trim s)"
    by (simp add: parseAppleScriptResult_def Let_def stripPrefix_def)
  have 6: "trim s = [] \<longrightarrow> parseAppleScriptResult (VStr s) = Inr VNull"
    by (simp add: parseAppleScriptResult_def)
  have 7: "list_all isWhitespaceChar w0 \<and> list_all isWhitespaceChar w
        \<longrightarrow> parseAppleScriptResult (VStr (w0 @ ''=>'' @ w @ s)) = parse (trim s)"
    using pre by blast
  show ?thesis by (intro conjI) (rule 1 2 3 4 5 6 7)+
qed

theorem parse_trailing_content_witness:
  "parse ''{1, 2} x'' = Inl (Error ''Unexpected trailing content in AppleScript result'')
   \<and> parse ''{1, 2}  '' = Inr (VList [VNum (Finite 1 0), VNum (Finite 2 0)])
   \<and> parseAppleScriptResult (VStr ''=> {1, 2}'') = Inr (VList [VNum (Finite 1 0), VNum (Finite 2 0)])
   \<and> parseAppleScriptResult (VStr ''{1, 2}'') = Inr (VList [VNum (Finite 1 0), VNum (Finite 2 0)])
   \<and> parseAppleScriptResult (VStr ('' '' @ ''=>'' @ ''  '' @ ''{1, 2}''))
       = Inr (VList [VNum (Finite 1 0), VNum (Finite 2 0)])
   \<and> parseAppleScriptResult (VStr ''  '') = Inr VNull"
proof -
  let ?v = "VList [VNum (Finite 1 0), VNum (Finite 2 0)]"
  have a: "parseValue ''{1, 2} x'' (skipWhitespace ''{1, 2} x'' 0) = Inr (?v, 6)" by code_simp
  have a': "(6::nat) \<le> 7 \<and> 7 < length ''{1, 2} x'' \<and> \<not> isWhitespaceChar (''{1, 2} x'' ! 7)"
    by code_simp
  have b: "parseValue ''{1, 2}  '' (skipWhitespace ''{1, 2}  '' 0) = Inr (?v, 6)" by code_simp
  have b': "\<forall>k. 6 \<le> k \<and> k < length ''{1, 2}  '' \<longrightarrow> isWhitespaceChar (''{1, 2}  '' ! k)"
  proof (intro allI impI)
    fix k :: nat assume "6 \<le> k \<and> k < length ''{1, 2}  ''"
    then have "k = 6 \<or> k = 7" by auto
    then show "isWhitespaceChar (''{1, 2}  '' ! k)" by (auto simp: isWhitespaceChar_def)
  qed
  have c: "trim ''{1, 2}'' = ''{1, 2}''" by code_simp
  have d: "parse ''{1, 2}'' = Inr ?v" by code_simp
  have e: "trim ''{1, 2}'' \<noteq> [] \<and> take 2 (trim ''{1, 2}'') \<noteq> ''=>''" by code_simp
  from parse_trailing_content [of "''{1, 2} x''" ?v 6] a a'
  have 1: "parse ''{1, 2} x'' = Inl (Error ''Unexpected trailing content in AppleScript result'')"
    by blast
  from parse_trailing_content [of "''{1, 2}  ''" ?v 6] b b'
  have 2: "parse ''{1, 2}  '' = Inr ?v" by blast
  from parse_trailing_content [of _ _ _ _ "''{1, 2}''"] e c d
  have 3: "parseAppleScriptResult (VStr (''=> '' @ ''{1, 2}'')) = Inr ?v"
    and 4: "parseAppleScriptResult (VStr ''{1, 2}'') = Inr ?v"
    by simp_all
  have f: "list_all isWhitespaceChar '' '' \<and> list_all isWhitespaceChar ''  ''" by code_simp
  from parse_trailing_content [of _ _ _ _ "''{1, 2}''" "'' ''" "''  ''"] f c d
  have 5: "parseAppleScriptResult (VStr ('' '' @ ''=>'' @ ''  '' @ ''{1, 2}'')) = Inr ?v"
    by simp
  have g: "trim ''  '' = []" by code_simp
  from parse_trailing_content [of _ _ _ _ "''  ''"] g
  have 6: "parseAppleScriptResult (VStr ''  '') = Inr VNull"
    by simp
  from 1 2 3 4 5 6 show ?thesis by simp
qed


end
